theory Spec2Isabelle
  imports Main
begin

text \<open>
  A shallow embedding of three parts of the media server: the SRT connection
  (\<open>srtCheckPassphrase\<close> and the session functions of \<open>conn\<close>), the stream of
  package \<open>core\<close> with its map of readers, and the HLS source with its supervisor
  loop; and of the tracks that the recorder declares in an fMP4 init. A function
  that acts on its collaborators returns the list of what it does, in order, next
  to its result; the answers of the collaborators are inputs.
\<close>


section \<open>Errors\<close>

text \<open>
  Go's \<open>error\<close> values. \<open>AuthenticationError\<close> is the error type of package
  \<open>defs\<close>; \<open>Wrapped\<close> is an error that wraps another one (\<open>%w\<close>); \<open>ErrMsg\<close> is
  a plain \<open>errors.New\<close> or \<open>fmt.Errorf\<close> error. A nil error is \<open>None\<close> of
  \<open>err option\<close>.
\<close>

datatype err = AuthenticationError string | Wrapped string err | ErrMsg string

text \<open>
  \<open>errors.As(err, &terr)\<close> with \<open>terr\<close> of type \<open>defs.AuthenticationError\<close>: the first
  error of that type in the chain of \<open>err\<close>, if there is one.
\<close>

fun errorsAs :: "err \<Rightarrow> err option" where
  "errorsAs (AuthenticationError m) = Some (AuthenticationError m)"
| "errorsAs (Wrapped m e) = errorsAs e"
| "errorsAs (ErrMsg m) = None"

section \<open>The SRT connection: passphrase check\<close>

text \<open>
  The part of \<open>srt.ConnRequest\<close> that the session uses: the stream id, whether the
  connection is encrypted, and the outcome of \<open>SetPassphrase\<close> for a given passphrase.
\<close>

record connRequest =
  StreamId :: string
  IsEncrypted :: bool
  SetPassphrase :: "string \<Rightarrow> err option"

text \<open>The calls \<open>srtCheckPassphrase\<close> makes on the connection request.\<close>

datatype connReqCall = CallIsEncrypted | CallSetPassphrase string

text \<open>
  \<open>srtCheckPassphrase\<close> returns the calls it made on the request, in order, and the
  error (\<open>None\<close> for nil).
\<close>

definition srtCheckPassphrase :: "connRequest \<Rightarrow> string \<Rightarrow> connReqCall list \<times> err option" where
  "srtCheckPassphrase connReq passphrase =
     (if passphrase = [] then ([], None)
      else if \<not> IsEncrypted connReq then
        ([CallIsEncrypted],
         Some (ErrMsg ''connection is encrypted, but not passphrase is defined in configuration''))
      else
        (case SetPassphrase connReq passphrase of
           Some e \<Rightarrow> ([CallIsEncrypted, CallSetPassphrase passphrase], Some (ErrMsg ''invalid passphrase''))
         | None \<Rightarrow> ([CallIsEncrypted, CallSetPassphrase passphrase], None)))"

section \<open>Stream descriptions\<close>

text \<open>
  The formats of the descriptions used by the sessions and the recorder, with the
  parameters the recorder reads: sample rates, channel counts and bit depths.
\<close>

datatype format =
    H264
  | H265
  | MPEG4Audio nat nat
  | G711 bool nat nat
  | LPCM nat nat nat

datatype mediaType = MediaTypeVideo | MediaTypeAudio | MediaTypeApplication

text \<open>A media of a description, carrying its format.\<close>

datatype media = Media mediaType format

type_synonym mediaUnit = nat

section \<open>The SRT connection: session\<close>

definition second :: nat where
  "second = 1000000000"

definition pauseAfterAuthError :: nat where
  "pauseAfterAuthError = 2 * second"

datatype connState = connStateRead | connStatePublish

datatype streamIDMode = streamIDModeRead | streamIDModePublish

record streamID =
  mode :: streamIDMode
  path :: string
  query :: string
  user :: string
  pass :: string

datatype authProtocol = AuthProtocolSRT

record accessRequest =
  Name :: string
  IP :: string
  Publish :: bool
  User :: string
  Pass :: string
  Proto :: authProtocol
  ID :: nat
  Query :: string

text \<open>
  What the session reads of a \<open>defs.Path\<close>: its name and, through \<open>SafeConf()\<close>,
  the two SRT passphrases.
\<close>

record pathRef =
  pname :: string
  SRTPublishPassphrase :: string
  SRTReadPassphrase :: string

text \<open>The connection \<open>c\<close>: its identifier and the address of its peer.\<close>

record conn =
  uuid :: nat
  ip :: string

text \<open>One call of \<open>r.Read()\<close>: the units its callbacks write to the stream, or an error.\<close>

datatype readResult = ReadOk "mediaUnit list" | ReadErr err

text \<open>
  Which case of the \<open>select\<close> of \<open>runPublish\<close> fires. With \<open>CtxDoneFirst k\<close> the
  context is cancelled when the reader task has performed \<open>k\<close> of its steps.
\<close>

datatype publishSel = ReaderErrFirst | CtxDoneFirst nat

datatype readSel = CtxDoneRead | WriterError "err option"

text \<open>
  The environment of one session: what each collaborator answers. The stream id
  parser, the path manager, the MPEG-TS reader and the stream are not part of the
  session's code; their answers are parameters.
\<close>

record env =
  newReq :: "connRequest option"
  unmarshal :: "string \<Rightarrow> err + streamID"
  addPublisherRes :: "err + pathRef"
  addReaderRes :: "err + pathRef"
  setConnRes :: bool
  newReaderRes :: "err option"
  toStreamRes :: "err + media list"
  startPublisherRes :: "err option"
  reads :: "readResult list"
  publishSelect :: publishSel
  fromStreamRes :: "err option"
  readSelect :: readSel

text \<open>
  What a session does, in order: its calls on the path manager, the path, the
  connection and the stream, its channel operations and its waits.
\<close>

datatype event =
    HooksOnConnect
  | OnDisconnectHook
  | CtxCancel
  | ParentCloseConn
  | LogClosed "err option"
  | WgDone
  | RecvChNew
  | CtxDone
  | SendRes bool
  | RecvChSetConn
  | AddPublisher accessRequest
  | RemovePublisher pathRef conn
  | AddReader accessRequest
  | RemoveReader pathRef conn
  | TimeAfter nat
  | ConnReq connReqCall
  | SetState connState string string
  | SconnClose
  | SconnSetReadDeadline bool
  | NewReader
  | ToStream
  | StartPublisher "media list" bool
  | ReaderRead
  | WriteUnit mediaUnit
  | RecvReaderErr
  | AsyncwriterNew
  | StreamRemoveReader
  | FromStream
  | LogReading
  | HooksOnRead
  | OnUnreadHook
  | WriterStart
  | WriterStop
  | RecvWriterError

definition terminated :: err where
  "terminated = ErrMsg ''terminated''"

text \<open>
  \<open>exchangeRequestWithConn\<close>: the connection is sent on \<open>req.res\<close>, then either the
  SRT connection arrives on \<open>chSetConn\<close> or the context is done.
\<close>

definition exchangeRequestWithConn :: "env \<Rightarrow> event list \<times> err option" where
  "exchangeRequestWithConn en =
     (if setConnRes en then ([SendRes True, RecvChSetConn], None)
      else ([SendRes True, CtxDone], Some terminated))"

text \<open>
  The loop \<open>for { err := r.Read(); if err != nil { return err } }\<close> over the answers
  of the reader. The loop ends at the first error; when the answers run out before
  an error, the loop has not returned: the result is \<open>None\<close>.
\<close>

fun readLoop :: "readResult list \<Rightarrow> event list \<times> err option" where
  "readLoop [] = ([], None)"
| "readLoop (ReadErr e # rs) = ([ReaderRead], Some e)"
| "readLoop (ReadOk us # rs) =
     (case readLoop rs of (tr, r) \<Rightarrow> (ReaderRead # map WriteUnit us @ tr, r))"

definition runPublishReader :: "env \<Rightarrow> event list \<times> err option" where
  "runPublishReader en =
     (case newReaderRes en of
        Some e \<Rightarrow> ([SconnSetReadDeadline True, NewReader], Some e)
      | None \<Rightarrow>
          (case toStreamRes en of
             Inl e \<Rightarrow> ([SconnSetReadDeadline True, NewReader, ToStream], Some e)
           | Inr medias \<Rightarrow>
               (case startPublisherRes en of
                  Some e \<Rightarrow>
                    ([SconnSetReadDeadline True, NewReader, ToStream,
                      StartPublisher medias True], Some e)
                | None \<Rightarrow>
                    (case readLoop (reads en) of
                       (tr, r) \<Rightarrow>
                         ([SconnSetReadDeadline True, NewReader, ToStream,
                           StartPublisher medias True] @ tr, r)))))"

definition publishRequest :: "conn \<Rightarrow> streamID \<Rightarrow> accessRequest" where
  "publishRequest c sid =
     \<lparr>Name = path sid, IP = ip c, Publish = True, User = user sid, Pass = pass sid,
      Proto = AuthProtocolSRT, ID = uuid c, Query = query sid\<rparr>"

definition readRequest :: "conn \<Rightarrow> streamID \<Rightarrow> accessRequest" where
  "readRequest c sid =
     \<lparr>Name = path sid, IP = ip c, Publish = False, User = user sid, Pass = pass sid,
      Proto = AuthProtocolSRT, ID = uuid c, Query = query sid\<rparr>"

text \<open>
  \<open>runPublish\<close>. The result is \<open>None\<close> when the function has not returned (the reader
  loop is still running), else the pair \<open>(answerSent, err)\<close>. The deferred call
  \<open>d1\<close> runs at every return that follows its \<open>defer\<close> statement.
\<close>

definition runPublish ::
  "env \<Rightarrow> conn \<Rightarrow> connRequest \<Rightarrow> streamID \<Rightarrow> event list \<times> (bool \<times> err option) option" where
  "runPublish en c req sid =
     (case addPublisherRes en of
        Inl e \<Rightarrow>
          (case errorsAs e of
             Some terr \<Rightarrow>
               ([AddPublisher (publishRequest c sid), TimeAfter pauseAfterAuthError],
                Some (False, Some terr))
           | None \<Rightarrow> ([AddPublisher (publishRequest c sid)], Some (False, Some e)))
      | Inr pa \<Rightarrow>
          (let d1 = [RemovePublisher pa c];
               tr1 = AddPublisher (publishRequest c sid) #
                     map ConnReq (fst (srtCheckPassphrase req (SRTPublishPassphrase pa)))
           in case snd (srtCheckPassphrase req (SRTPublishPassphrase pa)) of
                Some e \<Rightarrow> (tr1 @ d1, Some (False, Some e))
              | None \<Rightarrow>
                  (case snd (exchangeRequestWithConn en) of
                     Some e \<Rightarrow> (tr1 @ fst (exchangeRequestWithConn en) @ d1, Some (True, Some e))
                   | None \<Rightarrow>
                       (let tr2 = tr1 @ fst (exchangeRequestWithConn en) @
                                  [SetState connStatePublish (path sid) (query sid)];
                            rtr = fst (runPublishReader en)
                        in case publishSelect en of
                             ReaderErrFirst \<Rightarrow>
                               (case snd (runPublishReader en) of
                                  None \<Rightarrow> (tr2 @ rtr, None)
                                | Some e \<Rightarrow>
                                    (tr2 @ rtr @ [RecvReaderErr, SconnClose] @ d1,
                                     Some (True, Some e)))
                           | CtxDoneFirst k \<Rightarrow>
                               (case snd (runPublishReader en) of
                                  None \<Rightarrow>
                                    (tr2 @ take k rtr @ [CtxDone, SconnClose] @ drop k rtr, None)
                                | Some e \<Rightarrow>
                                    (tr2 @ take k rtr @ [CtxDone, SconnClose] @ drop k rtr @
                                     [RecvReaderErr] @ d1,
                                     Some (True, Some terminated)))))))"

text \<open>
  \<open>runRead\<close>. The deferred calls are kept in the order they run (last deferred
  first): \<open>d1\<close> after \<open>AddReader\<close>, \<open>d2\<close> once the connection is there, \<open>d3\<close> once
  the writer is created, \<open>d4\<close> once the read hook has run.
\<close>

definition runRead ::
  "env \<Rightarrow> conn \<Rightarrow> connRequest \<Rightarrow> streamID \<Rightarrow> event list \<times> (bool \<times> err option)" where
  "runRead en c req sid =
     (case addReaderRes en of
        Inl e \<Rightarrow>
          (case errorsAs e of
             Some terr \<Rightarrow>
               ([AddReader (readRequest c sid), TimeAfter pauseAfterAuthError],
                (False, Some e))
           | None \<Rightarrow> ([AddReader (readRequest c sid)], (False, Some e)))
      | Inr pa \<Rightarrow>
          (let d1 = [RemoveReader pa c];
               tr1 = AddReader (readRequest c sid) #
                     map ConnReq (fst (srtCheckPassphrase req (SRTReadPassphrase pa)))
           in case snd (srtCheckPassphrase req (SRTReadPassphrase pa)) of
                Some e \<Rightarrow> (tr1 @ d1, (False, Some e))
              | None \<Rightarrow>
                  (case snd (exchangeRequestWithConn en) of
                     Some e \<Rightarrow> (tr1 @ fst (exchangeRequestWithConn en) @ d1, (True, Some e))
                   | None \<Rightarrow>
                       (let d2 = SconnClose # d1;
                            tr2 = tr1 @ fst (exchangeRequestWithConn en) @
                                  [SetState connStateRead (path sid) (query sid), AsyncwriterNew];
                            d3 = StreamRemoveReader # d2
                        in case fromStreamRes en of
                             Some e \<Rightarrow> (tr2 @ [FromStream] @ d3, (True, Some e))
                           | None \<Rightarrow>
                               (let tr3 = tr2 @ [FromStream, LogReading, HooksOnRead];
                                    d4 = OnUnreadHook # d3;
                                    tr4 = tr3 @ [SconnSetReadDeadline False, WriterStart]
                                in case readSelect en of
                                     CtxDoneRead \<Rightarrow>
                                       (tr4 @ [CtxDone, WriterStop] @ d4, (True, Some terminated))
                                   | WriterError e \<Rightarrow>
                                       (tr4 @ [RecvWriterError] @ d4, (True, e)))))))"

text \<open>
  \<open>runInner2\<close>: the stream id is parsed and the session publishes or reads.
\<close>

definition runInner2 ::
  "env \<Rightarrow> conn \<Rightarrow> connRequest \<Rightarrow> event list \<times> (bool \<times> err option) option" where
  "runInner2 en c req =
     (case unmarshal en (StreamId req) of
        Inl e \<Rightarrow>
          ([], Some (False,
             Some (Wrapped (''invalid stream ID '' @ [CHR 0x27] @ StreamId req @ [CHR 0x27]) e)))
      | Inr sid \<Rightarrow>
          (if mode sid = streamIDModePublish then runPublish en c req sid
           else (fst (runRead en c req sid), Some (snd (runRead en c req sid)))))"

text \<open>
  \<open>runInner\<close>: a request arrives on \<open>chNew\<close> or the context is done; when no answer
  was sent, nil is sent on \<open>req.res\<close>. The result is \<open>None\<close> when the function has
  not returned.
\<close>

definition runInner :: "env \<Rightarrow> conn \<Rightarrow> event list \<times> err option option" where
  "runInner en c =
     (case newReq en of
        None \<Rightarrow> ([CtxDone], Some (Some terminated))
      | Some req \<Rightarrow>
          (case runInner2 en c req of
             (tr, None) \<Rightarrow> (RecvChNew # tr, None)
           | (tr, Some (answerSent, e)) \<Rightarrow>
               (RecvChNew # tr @ (if \<not> answerSent then [SendRes False] else []), Some e)))"

text \<open>
  \<open>run\<close>: the trace of the session and whether \<open>run\<close> has returned. The two
  deferred calls, \<open>onDisconnectHook()\<close> and \<open>c.wg.Done()\<close>, run last, in that order.
\<close>

definition run :: "env \<Rightarrow> conn \<Rightarrow> event list \<times> bool" where
  "run en c =
     (case runInner en c of
        (tr, None) \<Rightarrow> (HooksOnConnect # tr, False)
      | (tr, Some e) \<Rightarrow>
          (HooksOnConnect # tr @
           [CtxCancel, ParentCloseConn, LogClosed e, OnDisconnectHook, WgDone], True))"
definition isPathCall :: "event \<Rightarrow> bool" where
  "isPathCall ev =
     (case ev of AddPublisher a \<Rightarrow> True | RemovePublisher p c \<Rightarrow> True
      | AddReader a \<Rightarrow> True | RemoveReader p c \<Rightarrow> True | _ \<Rightarrow> False)"

definition isStartOrWrite :: "event \<Rightarrow> bool" where
  "isStartOrWrite ev =
     (case ev of StartPublisher m g \<Rightarrow> True | WriteUnit u \<Rightarrow> True | _ \<Rightarrow> False)"

definition startThenWrites :: "env \<Rightarrow> event list \<Rightarrow> bool" where
  "startThenWrites en evs =
     (evs = [] \<or>
      (\<exists>m. toStreamRes en = Inr m \<and> evs = [StartPublisher m True]) \<or>
      (\<exists>m us. toStreamRes en = Inr m \<and> startPublisherRes en = None \<and>
         evs = StartPublisher m True # map WriteUnit us))"

definition exampleConn :: conn where
  "exampleConn = \<lparr>uuid = 7, ip = ''203.0.113.5''\<rparr>"

definition exampleReq :: connRequest where
  "exampleReq =
     \<lparr>StreamId = ''publish:cam1:user:pw'', IsEncrypted = True,
      SetPassphrase = (\<lambda>p. if p = ''0123456789'' then None else Some (ErrMsg ''wrong passphrase''))\<rparr>"

definition exampleStreamID :: "streamIDMode \<Rightarrow> streamID" where
  "exampleStreamID m = \<lparr>mode = m, path = ''cam1'', query = [], user = ''user'', pass = ''pw''\<rparr>"

definition examplePath :: pathRef where
  "examplePath =
     \<lparr>pname = ''cam1'', SRTPublishPassphrase = ''0123456789'', SRTReadPassphrase = []\<rparr>"

definition exampleEnv :: "streamIDMode \<Rightarrow> env" where
  "exampleEnv m =
     \<lparr>newReq = Some exampleReq,
      unmarshal = (\<lambda>s. Inr (exampleStreamID m)),
      addPublisherRes = Inr examplePath,
      addReaderRes = Inr examplePath,
      setConnRes = True,
      newReaderRes = None,
      toStreamRes = Inr [Media MediaTypeVideo H264],
      startPublisherRes = None,
      reads = [ReadOk [1, 2], ReadOk [3], ReadErr (ErrMsg ''EOF'')],
      publishSelect = CtxDoneFirst 6,
      fromStreamRes = None,
      readSelect = WriterError (Some (ErrMsg ''reader is too slow''))\<rparr>"

definition exampleAuthError :: err where
  "exampleAuthError = Wrapped ''path manager'' (AuthenticationError ''wrong credentials'')"

definition exampleAuthEnv :: "streamIDMode \<Rightarrow> env" where
  "exampleAuthEnv m =
     (exampleEnv m)\<lparr>addPublisherRes := Inl exampleAuthError, addReaderRes := Inl exampleAuthError\<rparr>"

section \<open>The stream\<close>

text \<open>
  A reader of a stream. The type assertion \<open>r.(pathRTSPSession)\<close> succeeds exactly
  for the readers with \<open>isRTSPSession\<close>.
\<close>

datatype reader = Reader (readerId: nat) (isRTSPSession: bool)

text \<open>
  Modelled from the spec: \<open>newStreamTrack\<close> and the type \<open>streamTrack\<close> are not
  under src/. The spec has the construction of a stream fail for a format that the
  RTP packetizer does not support when \<open>generateRTPPackets\<close> is true. A track
  carries whether the packetizer supports its format. The function \<open>newStream\<close>
  below takes the constructor of stream tracks as a parameter.
\<close>

record track =
  trackName :: string
  packetizerSupports :: bool

datatype streamTrack = StreamTrack track bool

definition newStreamTrack :: "track \<Rightarrow> bool \<Rightarrow> err + streamTrack" where
  "newStreamTrack t generateRTPPackets =
     (if generateRTPPackets \<and> \<not> packetizerSupports t then Inl (ErrMsg ''unsupported format'')
      else Inr (StreamTrack t generateRTPPackets))"

text \<open>
  The stream: the keys of the map \<open>nonRTSPReaders.ma\<close>, the tracks given to
  \<open>gortsplib.NewServerStream\<close> (which \<open>rtspStream.Tracks()\<close> returns), and the
  stream tracks.
\<close>

record stream =
  nonRTSPReaders :: "reader set"
  rtspStream :: "track list"
  streamTracks :: "streamTrack list"

text \<open>
  The loop of \<open>newStream\<close> over the tracks: \<open>streamTracks[i]\<close> is made from track
  \<open>i\<close>, and the first error ends the construction.
\<close>

fun newStreamTracks ::
  "(track \<Rightarrow> bool \<Rightarrow> err + streamTrack) \<Rightarrow> track list \<Rightarrow> bool \<Rightarrow> err + streamTrack list" where
  "newStreamTracks nst [] g = Inr []"
| "newStreamTracks nst (t # ts) g =
     (case nst t g of
        Inl e \<Rightarrow> Inl e
      | Inr st \<Rightarrow>
          (case newStreamTracks nst ts g of
             Inl e \<Rightarrow> Inl e
           | Inr sts \<Rightarrow> Inr (st # sts)))"

definition newStream ::
  "(track \<Rightarrow> bool \<Rightarrow> err + streamTrack) \<Rightarrow> track list \<Rightarrow> bool \<Rightarrow> err + stream" where
  "newStream nst tracks generateRTPPackets =
     (case newStreamTracks nst tracks generateRTPPackets of
        Inl e \<Rightarrow> Inl e
      | Inr sts \<Rightarrow> Inr \<lparr>nonRTSPReaders = {}, rtspStream = tracks, streamTracks = sts\<rparr>)"






text \<open>
  A piece of data: what \<open>getTrackID\<close>, \<open>getRTPPackets\<close> and \<open>getPTSEqualsDTS\<close>
  return, and an identifier of the data itself.
\<close>

record data =
  dataId :: nat
  trackID :: int
  rtpPackets :: "nat list"
  ptsEqualsDTS :: bool













definition exampleTracks :: "track list" where
  "exampleTracks =
     [\<lparr>trackName = ''H264'', packetizerSupports = True\<rparr>,
      \<lparr>trackName = ''MPEG4-audio'', packetizerSupports = True\<rparr>]"

definition exampleStream :: stream where
  "exampleStream =
     \<lparr>nonRTSPReaders = {}, rtspStream = exampleTracks,
      streamTracks = [StreamTrack (exampleTracks ! 0) True, StreamTrack (exampleTracks ! 1) True]\<rparr>"




section \<open>The HLS source\<close>

text \<open>
  The answer of the path to \<open>OnSourceStaticSetReady\<close>: a stream and an error, each
  of which may be nil.
\<close>

record pathSourceStaticSetReadyRes =
  Stream :: "stream option"
  Err :: "err option"

text \<open>What the source does, in order.\<close>

datatype sourceEvent =
    NewClient string
  | OnSourceStaticSetReady "track list" pathSourceStaticSetReadyRes
  | LogReady
  | RtcpSendersNew "track list"
  | RtcpSendersOnFrame int "nat list"
  | StreamOnFrame int "nat list"
  | ClientWait
  | LogError "err option"
  | SourceCtxDone
  | ClientClose
  | OnSourceStaticSetNotReady
  | RtcpSendersClose
  | SourceTimeAfter nat
  | SourceCtxCancel
  | SourceWgDone

text \<open>The local variables of \<open>runInner\<close> that its closures share.\<close>

record innerVars =
  streamVar :: "stream option"
  rtcpSendersVar :: "track list option"
  videoTrackID :: int
  audioTrackID :: int

definition initVars :: innerVars where
  "initVars = \<lparr>streamVar = None, rtcpSendersVar = None, videoTrackID = 0, audioTrackID = 0\<rparr>"

text \<open>
  The closure \<open>onTracks\<close>: the new variables, what it does, and the error it returns
  to the client.
\<close>

definition onTracks ::
  "innerVars \<Rightarrow> track option \<Rightarrow> track option \<Rightarrow> pathSourceStaticSetReadyRes \<Rightarrow>
   innerVars \<times> sourceEvent list \<times> err option" where
  "onTracks vs videoTrack audioTrack res =
     (let tracks0 = [];
          vs1 = (case videoTrack of
                   Some t \<Rightarrow> vs\<lparr>videoTrackID := int (length tracks0)\<rparr>
                 | None \<Rightarrow> vs);
          tracks1 = (case videoTrack of Some t \<Rightarrow> tracks0 @ [t] | None \<Rightarrow> tracks0);
          vs2 = (case audioTrack of
                   Some t \<Rightarrow> vs1\<lparr>audioTrackID := int (length tracks1)\<rparr>
                 | None \<Rightarrow> vs1);
          tracks2 = (case audioTrack of Some t \<Rightarrow> tracks1 @ [t] | None \<Rightarrow> tracks1)
      in case Err res of
           Some e \<Rightarrow> (vs2, [OnSourceStaticSetReady tracks2 res], Some e)
         | None \<Rightarrow>
             (vs2\<lparr>streamVar := Stream res, rtcpSendersVar := Some tracks2\<rparr>,
              [OnSourceStaticSetReady tracks2 res, LogReady, RtcpSendersNew tracks2], None))"

definition onFrame :: "innerVars \<Rightarrow> bool \<Rightarrow> nat list \<Rightarrow> sourceEvent list" where
  "onFrame vs isVideo payload =
     (let trackID = (if isVideo then videoTrackID vs else audioTrackID vs)
      in if streamVar vs \<noteq> None
         then [RtcpSendersOnFrame trackID payload, StreamOnFrame trackID payload]
         else [])"

text \<open>The calls the HLS client makes on the two closures, with the answer of the path.\<close>

datatype callback =
    OnTracks "track option" "track option" pathSourceStaticSetReadyRes
  | OnFrame bool "nat list"

fun clientCallbacks :: "innerVars \<Rightarrow> callback list \<Rightarrow> innerVars \<times> sourceEvent list" where
  "clientCallbacks vs [] = (vs, [])"
| "clientCallbacks vs (OnTracks videoTrack audioTrack res # cbs) =
     (case onTracks vs videoTrack audioTrack res of
        (vs', evs, e) \<Rightarrow>
          (case clientCallbacks vs' cbs of (vs'', evs') \<Rightarrow> (vs'', evs @ evs')))"
| "clientCallbacks vs (OnFrame isVideo payload # cbs) =
     (case clientCallbacks vs cbs of (vs', evs') \<Rightarrow> (vs', onFrame vs isVideo payload @ evs'))"

text \<open>The deferred function of \<open>runInner\<close>.\<close>

definition deferredCleanup :: "innerVars \<Rightarrow> sourceEvent list" where
  "deferredCleanup vs =
     (if streamVar vs \<noteq> None then [OnSourceStaticSetNotReady, RtcpSendersClose] else [])"

text \<open>
  One attempt. Either the client ends by itself and \<open>c.Wait()\<close> yields its error,
  after the client made some calls; or the context is done first, after some calls
  of the client, and the client may make more calls until its teardown is over.
\<close>

datatype attempt =
    UpstreamErr "callback list" "err option"
  | Cancelled "callback list" "callback list"

text \<open>\<open>runInner\<close>: what it does and the boolean it returns.\<close>

definition hlsSource_runInner :: "string \<Rightarrow> attempt \<Rightarrow> sourceEvent list \<times> bool" where
  "hlsSource_runInner ur a =
     (case a of
        UpstreamErr cbs e \<Rightarrow>
          (case clientCallbacks initVars cbs of
             (vs, evs) \<Rightarrow>
               (NewClient ur # evs @ [ClientWait, LogError e] @ deferredCleanup vs, True))
      | Cancelled cbs late \<Rightarrow>
          (case clientCallbacks initVars cbs of
             (vs, evs) \<Rightarrow>
               (case clientCallbacks vs late of
                  (vs', evs') \<Rightarrow>
                    (NewClient ur # evs @ [SourceCtxDone, ClientClose] @ evs' @ [ClientWait] @
                     deferredCleanup vs', False))))"

text \<open>Which case of the \<open>select\<close> between two attempts fires.\<close>

datatype pause = TimerFired | CtxDoneInPause

text \<open>
  The loop of \<open>run\<close> over the attempts and the pauses that follow them. The second
  component tells whether the loop has been left; when the attempts run out
  before, the loop is still running.
\<close>

fun runLoop :: "string \<Rightarrow> nat \<Rightarrow> (attempt \<times> pause) list \<Rightarrow> sourceEvent list \<times> bool" where
  "runLoop ur retryPause [] = ([], False)"
| "runLoop ur retryPause ((a, p) # rest) =
     (case hlsSource_runInner ur a of
        (tr, ok) \<Rightarrow>
          (if \<not> ok then (tr, True)
           else (case p of
                   CtxDoneInPause \<Rightarrow> (tr @ [SourceCtxDone], True)
                 | TimerFired \<Rightarrow>
                     (case runLoop ur retryPause rest of
                        (tr', left) \<Rightarrow> (tr @ [SourceTimeAfter retryPause] @ tr', left)))))"

text \<open>\<open>run\<close>: what the supervisor does and whether \<open>run\<close> has returned.\<close>

definition hlsSource_run ::
  "string \<Rightarrow> nat \<Rightarrow> (attempt \<times> pause) list \<Rightarrow> sourceEvent list \<times> bool" where
  "hlsSource_run ur retryPause script =
     (case runLoop ur retryPause script of
        (tr, left) \<Rightarrow> (if left then (tr @ [SourceCtxCancel, SourceWgDone], True) else (tr, False)))"

text \<open>Auxiliary notions for the properties of the source.\<close>

definition attemptCallbacks :: "attempt \<Rightarrow> callback list" where
  "attemptCallbacks a = (case a of UpstreamErr cbs e \<Rightarrow> cbs | Cancelled cbs late \<Rightarrow> cbs @ late)"

definition isOnTracks :: "callback \<Rightarrow> bool" where
  "isOnTracks cb = (case cb of OnTracks v a res \<Rightarrow> True | OnFrame i p \<Rightarrow> False)"

text \<open>A successful answer of the path carries a stream.\<close>

definition replyHasStream :: "callback \<Rightarrow> bool" where
  "replyHasStream cb =
     (case cb of OnTracks v a res \<Rightarrow> Err res \<noteq> None \<or> Stream res \<noteq> None | OnFrame i p \<Rightarrow> True)"

definition isReadyOk :: "sourceEvent \<Rightarrow> bool" where
  "isReadyOk ev = (case ev of OnSourceStaticSetReady ts res \<Rightarrow> Err res = None | _ \<Rightarrow> False)"

text \<open>
  The stream that a sequence of calls leaves behind, from the answers of the path
  alone: that of the last answer of \<open>OnSourceStaticSetReady\<close> without an error,
  or \<open>st\<close> when there is none.
\<close>

fun readyStream :: "stream option \<Rightarrow> sourceEvent list \<Rightarrow> stream option" where
  "readyStream st [] = st"
| "readyStream st (OnSourceStaticSetReady ts res # evs) =
     readyStream (if Err res = None then Stream res else st) evs"
| "readyStream st (ev # evs) = readyStream st evs"

definition isNewClient :: "sourceEvent \<Rightarrow> bool" where
  "isNewClient ev = (case ev of NewClient u \<Rightarrow> True | _ \<Rightarrow> False)"

definition isTeardown :: "sourceEvent \<Rightarrow> bool" where
  "isTeardown ev = (ev = SourceCtxDone \<or> ev = ClientClose \<or> ev = ClientWait)"

definition errThenTimer :: "attempt \<times> pause \<Rightarrow> bool" where
  "errThenTimer x =
     (case x of
        (UpstreamErr cbs e, TimerFired) \<Rightarrow> True
      | (UpstreamErr cbs e, CtxDoneInPause) \<Rightarrow> False
      | (Cancelled cbs late, p) \<Rightarrow> False)"

definition exampleReady :: pathSourceStaticSetReadyRes where
  "exampleReady = \<lparr>Stream = Some exampleStream, Err = None\<rparr>"

definition exampleCallbacks :: "callback list" where
  "exampleCallbacks =
     [OnFrame True [0],
      OnTracks (Some (exampleTracks ! 0)) (Some (exampleTracks ! 1)) exampleReady,
      OnFrame False [1, 2]]"

definition exampleScript :: "(attempt \<times> pause) list" where
  "exampleScript =
     [(UpstreamErr [] (Some (ErrMsg ''connection refused'')), TimerFired),
      (UpstreamErr exampleCallbacks (Some (ErrMsg ''EOF'')), TimerFired)]"

text \<open>An answer with neither a stream nor an error.\<close>

definition exampleNilReady :: pathSourceStaticSetReadyRes where
  "exampleNilReady = \<lparr>Stream = None, Err = None\<rparr>"

section \<open>The recorder: tracks of the fMP4 init\<close>

text \<open>
  Modelled from the spec: the recorder agent and its fMP4 format are not under
  src/, only the test of the agent is. The spec has each media of the description
  become one track, with a 1-based ID in the order of the description, and with a
  time scale given by the format: 90000 for H.264 and H.265, the sample rate for
  MPEG-4 audio and LPCM. G.711 is recorded as LPCM, with its sample rate as time
  scale, as the fourth track of the test and of the spec's scenario has it (8000).
\<close>

record initTrack =
  TrackID :: nat
  TimeScale :: nat

fun formatTimeScale :: "format \<Rightarrow> nat" where
  "formatTimeScale H264 = 90000"
| "formatTimeScale H265 = 90000"
| "formatTimeScale (MPEG4Audio sampleRate channelCount) = sampleRate"
| "formatTimeScale (G711 muLaw sampleRate channelCount) = sampleRate"
| "formatTimeScale (LPCM bitDepth sampleRate channelCount) = sampleRate"

fun mediaFormat :: "media \<Rightarrow> format" where
  "mediaFormat (Media ty f) = f"

fun initTracksFrom :: "nat \<Rightarrow> media list \<Rightarrow> initTrack list" where
  "initTracksFrom nextID [] = []"
| "initTracksFrom nextID (m # ms) =
     \<lparr>TrackID = nextID, TimeScale = formatTimeScale (mediaFormat m)\<rparr> #
     initTracksFrom (Suc nextID) ms"

definition initTracks :: "media list \<Rightarrow> initTrack list" where
  "initTracks desc = initTracksFrom 1 desc"

text \<open>The description of \<open>TestAgent\<close>.\<close>

definition testDesc :: "media list" where
  "testDesc =
     [Media MediaTypeVideo H264,
      Media MediaTypeVideo H265,
      Media MediaTypeAudio (MPEG4Audio 44100 2),
      Media MediaTypeAudio (G711 False 8000 1),
      Media MediaTypeAudio (LPCM 16 44100 2)]"

section \<open>Properties: the passphrase check\<close>

text \<open>
  C9. With an empty passphrase \<open>srtCheckPassphrase\<close> returns nil and makes no call on
  the connection request (no encryption check at all). With a non-empty passphrase
  it returns an error exactly when the connection is not encrypted or
  \<open>SetPassphrase\<close> fails.
\<close>

theorem srtCheckPassphrase_cases:
  "srtCheckPassphrase connReq [] = ([], None) \<and>
   (passphrase \<noteq> [] \<longrightarrow>
      (snd (srtCheckPassphrase connReq passphrase) \<noteq> None) =
      (\<not> IsEncrypted connReq \<or> SetPassphrase connReq passphrase \<noteq> None))"
  by (auto simp: srtCheckPassphrase_def split: option.splits)

theorem srtCheckPassphrase_cases_witness:
  "''0123456789'' \<noteq> [] \<and> ''wrong'' \<noteq> [] \<and>
   srtCheckPassphrase exampleReq ''0123456789'' =
     ([CallIsEncrypted, CallSetPassphrase ''0123456789''], None) \<and>
   snd (srtCheckPassphrase exampleReq ''wrong'') \<noteq> None \<and>
   snd (srtCheckPassphrase (exampleReq\<lparr>IsEncrypted := False\<rparr>) ''0123456789'') \<noteq> None"
  using srtCheckPassphrase_cases [of exampleReq "''0123456789''"]
    srtCheckPassphrase_cases [of exampleReq "''wrong''"]
    srtCheckPassphrase_cases [of "exampleReq\<lparr>IsEncrypted := False\<rparr>" "''0123456789''"]
  by (simp add: exampleReq_def srtCheckPassphrase_def)

section \<open>Properties: the SRT session\<close>

lemmas session_defs = run_def runInner_def runInner2_def runPublish_def runRead_def
  runPublishReader_def exchangeRequestWithConn_def srtCheckPassphrase_def exampleEnv_def
  exampleReq_def exampleStreamID_def examplePath_def exampleAuthEnv_def exampleAuthError_def
  exampleConn_def publishRequest_def readRequest_def terminated_def Let_def

subsection \<open>Calls on the path manager and the path\<close>

lemma readLoop_no_pathCall: "filter isPathCall (fst (readLoop rs)) = []"
  by (induction rs rule: readLoop.induct) (auto simp: isPathCall_def split: prod.splits)

lemma runPublishReader_no_pathCall: "filter isPathCall (fst (runPublishReader en)) = []"
  using readLoop_no_pathCall [of "reads en"]
  by (auto simp: runPublishReader_def isPathCall_def split: option.splits sum.splits prod.splits)

lemma filter_take_drop: "filter P (take k xs) @ filter P (drop k xs) = filter P xs"
  by (metis append_take_drop_id filter_append)

lemma filter_empty_take: "filter P xs = [] \<Longrightarrow> filter P (take k xs) = [] \<and> filter P (drop k xs) = []"
  using filter_take_drop [of P k xs] by simp

lemma srtCheck_no_pathCall: "filter isPathCall (map ConnReq cs) = []"
  by (induction cs) (auto simp: isPathCall_def)

lemma exchange_no_pathCall: "filter isPathCall (fst (exchangeRequestWithConn en)) = []"
  by (auto simp: exchangeRequestWithConn_def isPathCall_def)

lemma runPublish_pathCalls:
  assumes "addPublisherRes en = Inr pa" and "runPublish en c req sid = (tr, Some r)"
  shows "filter isPathCall tr = [AddPublisher (publishRequest c sid), RemovePublisher pa c]
     \<and> last tr = RemovePublisher pa c"
  using assms runPublishReader_no_pathCall [of en] exchange_no_pathCall [of en]
    filter_empty_take [OF runPublishReader_no_pathCall, of _ en]
  by (auto simp: runPublish_def Let_def srtCheck_no_pathCall isPathCall_def
      split: option.splits sum.splits publishSel.splits)


lemma runRead_pathCalls:
  "filter isPathCall (fst (runRead en c req sid)) =
     (case addReaderRes en of Inl e \<Rightarrow> [AddReader (readRequest c sid)]
      | Inr pa \<Rightarrow> [AddReader (readRequest c sid), RemoveReader pa c])"
  using exchange_no_pathCall [of en]
  by (auto simp: runRead_def Let_def srtCheck_no_pathCall isPathCall_def
      split: option.splits sum.splits readSel.splits)

lemma runPublish_pathCalls_fail:
  assumes "addPublisherRes en = Inl e"
  shows "filter isPathCall (fst (runPublish en c req sid)) = [AddPublisher (publishRequest c sid)]"
  using assms by (auto simp: runPublish_def isPathCall_def split: option.splits)

lemma runInner2_pathCalls:
  assumes "runInner2 en c req = (tr, Some r)"
  shows "filter isPathCall tr = [] \<or>
    (\<exists>sid. (\<exists>e. addPublisherRes en = Inl e) \<and> filter isPathCall tr = [AddPublisher (publishRequest c sid)]) \<or>
    (\<exists>sid pa. addPublisherRes en = Inr pa \<and>
        filter isPathCall tr = [AddPublisher (publishRequest c sid), RemovePublisher pa c]) \<or>
    (\<exists>sid. (\<exists>e. addReaderRes en = Inl e) \<and> filter isPathCall tr = [AddReader (readRequest c sid)]) \<or>
    (\<exists>sid pa. addReaderRes en = Inr pa \<and>
        filter isPathCall tr = [AddReader (readRequest c sid), RemoveReader pa c])"
proof (cases "unmarshal en (StreamId req)")
  case (Inl e)
  with assms show ?thesis by (auto simp: runInner2_def)
next
  case (Inr sid)
  show ?thesis
  proof (cases "mode sid = streamIDModePublish")
    case True
    with Inr assms have rp: "runPublish en c req sid = (tr, Some r)" by (simp add: runInner2_def)
    show ?thesis
    proof (cases "addPublisherRes en")
      case (Inl e)
      from runPublish_pathCalls_fail [OF Inl, of c req sid] rp Inl show ?thesis by auto
    next
      case (Inr pa)
      from runPublish_pathCalls [OF Inr rp] Inr show ?thesis by auto
    qed
  next
    case False
    with Inr assms have "tr = fst (runRead en c req sid)" by (auto simp: runInner2_def)
    with runRead_pathCalls [of en c req sid] show ?thesis
      by (cases "addReaderRes en") auto
  qed
qed

lemma run_returned:
  assumes "run en c = (tr, True)"
  shows "\<exists>pre e. tr = HooksOnConnect # pre @ [CtxCancel, ParentCloseConn, LogClosed e, OnDisconnectHook, WgDone]
      \<and> runInner en c = (pre, Some e)"
  using assms by (auto simp: run_def split: prod.splits option.splits)

lemma runInner_pathCalls:
  assumes "runInner en c = (pre, Some e)"
  shows "filter isPathCall pre = [] \<or>
    (\<exists>sid. (\<exists>e. addPublisherRes en = Inl e) \<and> filter isPathCall pre = [AddPublisher (publishRequest c sid)]) \<or>
    (\<exists>sid pa. addPublisherRes en = Inr pa \<and>
        filter isPathCall pre = [AddPublisher (publishRequest c sid), RemovePublisher pa c]) \<or>
    (\<exists>sid. (\<exists>e. addReaderRes en = Inl e) \<and> filter isPathCall pre = [AddReader (readRequest c sid)]) \<or>
    (\<exists>sid pa. addReaderRes en = Inr pa \<and>
        filter isPathCall pre = [AddReader (readRequest c sid), RemoveReader pa c])"
proof (cases "newReq en")
  case None
  with assms show ?thesis by (auto simp: runInner_def isPathCall_def)
next
  case (Some req)
  obtain tr2 r2 where r2: "runInner2 en c req = (tr2, r2)" by (cases "runInner2 en c req")
  with Some assms obtain r where r: "r2 = Some r"
    by (cases r2) (auto simp: runInner_def)
  from Some assms r2 r have "filter isPathCall pre = filter isPathCall tr2"
    by (cases r) (auto simp: runInner_def isPathCall_def split: if_splits)
  with runInner2_pathCalls [OF r2 [unfolded r]] show ?thesis by simp
qed

text \<open>
  C1. When \<open>run\<close> has returned, its trace ends with the closing steps of \<open>run\<close>, and
  before them: if the session called \<open>AddPublisher\<close> and the call succeeded with
  path \<open>pa\<close>, the calls of the session on the path manager and the path are exactly
  that \<open>AddPublisher\<close> followed by one \<open>RemovePublisher\<close> on \<open>pa\<close>; likewise
  for \<open>AddReader\<close> and \<open>RemoveReader\<close>. So every exit that follows a successful
  admission removes the session from the path before \<open>run\<close> returns.
\<close>

theorem remove_on_every_exit:
  assumes "run en c = (tr, True)"
  shows "\<exists>pre e. tr = HooksOnConnect # pre @ [CtxCancel, ParentCloseConn, LogClosed e, OnDisconnectHook, WgDone] \<and>
     (\<forall>a pa. AddPublisher a \<in> set tr \<and> addPublisherRes en = Inr pa \<longrightarrow>
        filter isPathCall pre = [AddPublisher a, RemovePublisher pa c]) \<and>
     (\<forall>a pa. AddReader a \<in> set tr \<and> addReaderRes en = Inr pa \<longrightarrow>
        filter isPathCall pre = [AddReader a, RemoveReader pa c])"
proof -
  from run_returned [OF assms] obtain pre e where
    tr: "tr = HooksOnConnect # pre @ [CtxCancel, ParentCloseConn, LogClosed e, OnDisconnectHook, WgDone]"
    and ri: "runInner en c = (pre, Some e)" by blast
  define fl where "fl = filter isPathCall pre"
  have mem: "\<And>x. isPathCall x \<Longrightarrow> x \<in> set tr \<Longrightarrow> x \<in> set fl"
    by (auto simp: tr isPathCall_def fl_def)
  note D = runInner_pathCalls [OF ri, folded fl_def]
  have P: "fl = [AddPublisher a, RemovePublisher pa c]"
    if a: "AddPublisher a \<in> set tr" and ok: "addPublisherRes en = Inr pa" for a pa
  proof -
    from mem [OF _ a] have m: "AddPublisher a \<in> set fl" by (simp add: isPathCall_def)
    from D m ok show ?thesis by auto
  qed
  have R: "fl = [AddReader a, RemoveReader pa c]"
    if a: "AddReader a \<in> set tr" and ok: "addReaderRes en = Inr pa" for a pa
  proof -
    from mem [OF _ a] have m: "AddReader a \<in> set fl" by (simp add: isPathCall_def)
    from D m ok show ?thesis by auto
  qed
  from tr P R show ?thesis unfolding fl_def by blast
qed

theorem remove_on_every_exit_witness:
  "snd (run (exampleEnv streamIDModePublish) exampleConn) \<and>
   filter isPathCall (fst (run (exampleEnv streamIDModePublish) exampleConn)) =
     [AddPublisher (publishRequest exampleConn (exampleStreamID streamIDModePublish)),
      RemovePublisher examplePath exampleConn] \<and>
   snd (run (exampleEnv streamIDModeRead) exampleConn) \<and>
   filter isPathCall (fst (run (exampleEnv streamIDModeRead) exampleConn)) =
     [AddReader (readRequest exampleConn (exampleStreamID streamIDModeRead)),
      RemoveReader examplePath exampleConn]"
proof -
  let ?P = "exampleEnv streamIDModePublish" and ?R = "exampleEnv streamIDModeRead"
  have rp: "run ?P exampleConn = (fst (run ?P exampleConn), True)"
    by (simp add: session_defs)
  have ap: "AddPublisher (publishRequest exampleConn (exampleStreamID streamIDModePublish))
      \<in> set (fst (run ?P exampleConn))"
    by (simp add: session_defs)
  have okp: "addPublisherRes ?P = Inr examplePath"
    by (simp add: exampleEnv_def)
  from remove_on_every_exit [OF rp] obtain pre e where
    trp: "fst (run ?P exampleConn) =
      HooksOnConnect # pre @ [CtxCancel, ParentCloseConn, LogClosed e, OnDisconnectHook, WgDone]"
    and P: "\<forall>a pa. AddPublisher a \<in> set (fst (run ?P exampleConn)) \<and>
        addPublisherRes ?P = Inr pa \<longrightarrow>
        filter isPathCall pre = [AddPublisher a, RemovePublisher pa exampleConn]"
    by blast
  from P ap okp have "filter isPathCall pre =
      [AddPublisher (publishRequest exampleConn (exampleStreamID streamIDModePublish)),
       RemovePublisher examplePath exampleConn]"
    by blast
  then have fp: "filter isPathCall (fst (run ?P exampleConn)) =
      [AddPublisher (publishRequest exampleConn (exampleStreamID streamIDModePublish)),
       RemovePublisher examplePath exampleConn]"
    by (simp add: trp isPathCall_def)
  have rr: "run ?R exampleConn = (fst (run ?R exampleConn), True)"
    by (simp add: session_defs)
  have ar: "AddReader (readRequest exampleConn (exampleStreamID streamIDModeRead))
      \<in> set (fst (run ?R exampleConn))"
    by (simp add: session_defs)
  have okr: "addReaderRes ?R = Inr examplePath"
    by (simp add: exampleEnv_def)
  from remove_on_every_exit [OF rr] obtain pre' e' where
    trr: "fst (run ?R exampleConn) =
      HooksOnConnect # pre' @ [CtxCancel, ParentCloseConn, LogClosed e', OnDisconnectHook, WgDone]"
    and R: "\<forall>a pa. AddReader a \<in> set (fst (run ?R exampleConn)) \<and>
        addReaderRes ?R = Inr pa \<longrightarrow>
        filter isPathCall pre' = [AddReader a, RemoveReader pa exampleConn]"
    by blast
  from R ar okr have "filter isPathCall pre' =
      [AddReader (readRequest exampleConn (exampleStreamID streamIDModeRead)),
       RemoveReader examplePath exampleConn]"
    by blast
  then have fr: "filter isPathCall (fst (run ?R exampleConn)) =
      [AddReader (readRequest exampleConn (exampleStreamID streamIDModeRead)),
       RemoveReader examplePath exampleConn]"
    by (simp add: trr isPathCall_def)
  from rp rr fp fr show ?thesis
    by (metis snd_conv)
qed

subsection \<open>Order of \<open>StartPublisher\<close> and the unit writes\<close>

lemma readLoop_writes: "\<exists>us. filter isStartOrWrite (fst (readLoop rs)) = map WriteUnit us"
proof (induction rs rule: readLoop.induct)
  case 1
  show ?case by simp
next
  case (2 e rs)
  show ?case by (simp add: isStartOrWrite_def)
next
  case (3 us rs)
  then obtain vs where vs: "filter isStartOrWrite (fst (readLoop rs)) = map WriteUnit vs" by blast
  have "filter isStartOrWrite (map WriteUnit us) = map WriteUnit us"
    by (induction us) (simp_all add: isStartOrWrite_def)
  with vs have "filter isStartOrWrite (fst (readLoop (ReadOk us # rs))) = map WriteUnit (us @ vs)"
    by (cases "readLoop rs") (simp add: isStartOrWrite_def)
  then show ?case by blast
qed

lemma runPublishReader_sw:
  "startThenWrites en (filter isStartOrWrite (fst (runPublishReader en)))"
  using readLoop_writes [of "reads en"]
  by (auto simp: runPublishReader_def isStartOrWrite_def startThenWrites_def
      split: option.splits sum.splits prod.splits)

lemma connReq_no_sw: "filter isStartOrWrite (map ConnReq cs) = []"
  by (induction cs) (auto simp: isStartOrWrite_def)

lemma exchange_no_sw: "filter isStartOrWrite (fst (exchangeRequestWithConn en)) = []"
  by (auto simp: exchangeRequestWithConn_def isStartOrWrite_def)

lemma runPublish_sw:
  "startThenWrites en (filter isStartOrWrite (fst (runPublish en c req sid)))"
proof -
  have e: "startThenWrites en []" by (simp add: startThenWrites_def)
  show ?thesis
    using runPublishReader_sw [of en] exchange_no_sw [of en] e
      filter_take_drop [of isStartOrWrite _ "fst (runPublishReader en)"]
    by (auto simp: runPublish_def Let_def connReq_no_sw isStartOrWrite_def
        split: option.splits sum.splits publishSel.splits)
qed

lemma runRead_sw: "filter isStartOrWrite (fst (runRead en c req sid)) = []"
  using exchange_no_sw [of en]
  by (auto simp: runRead_def Let_def connReq_no_sw isStartOrWrite_def
      split: option.splits sum.splits readSel.splits)

lemma runInner2_sw:
  "startThenWrites en (filter isStartOrWrite (fst (runInner2 en c req)))"
  using runPublish_sw [of en c req] runRead_sw [of en c req]
  by (auto simp: runInner2_def startThenWrites_def [of en "[]"] split: sum.splits)

lemma runInner_sw:
  "startThenWrites en (filter isStartOrWrite (fst (runInner en c)))"
proof (cases "newReq en")
  case None
  then show ?thesis by (simp add: runInner_def isStartOrWrite_def startThenWrites_def)
next
  case (Some req)
  have "filter isStartOrWrite (fst (runInner en c)) = filter isStartOrWrite (fst (runInner2 en c req))"
    using Some by (auto simp: runInner_def isStartOrWrite_def split: prod.splits option.splits)
  with runInner2_sw [of en c req] show ?thesis by simp
qed

lemma run_sw: "startThenWrites en (filter isStartOrWrite (fst (run en c)))"
proof -
  have "filter isStartOrWrite (fst (run en c)) = filter isStartOrWrite (fst (runInner en c))"
    by (auto simp: run_def isStartOrWrite_def split: prod.splits option.splits)
  with runInner_sw [of en c] show ?thesis by simp
qed

text \<open>
  C5. In the trace of a session, returned or not, every unit write is preceded by
  the call of \<open>StartPublisher\<close>, which succeeded and was given the medias that
  \<open>ToStream\<close> derived from the ingested MPEG-TS, with \<open>GenerateRTPPackets\<close> set.
\<close>

theorem start_before_first_write:
  assumes "fst (run en c) = pre @ WriteUnit u # post"
  shows "\<exists>medias. toStreamRes en = Inr medias \<and> startPublisherRes en = None \<and>
           StartPublisher medias True \<in> set pre"
proof -
  let ?f = "filter isStartOrWrite"
  have split: "?f (fst (run en c)) = ?f pre @ WriteUnit u # ?f post"
    by (simp add: assms isStartOrWrite_def)
  from run_sw [of en c] consider
      "?f (fst (run en c)) = []"
    | m where "toStreamRes en = Inr m" "?f (fst (run en c)) = [StartPublisher m True]"
    | m us where "toStreamRes en = Inr m" "startPublisherRes en = None"
        "?f (fst (run en c)) = StartPublisher m True # map WriteUnit us"
    unfolding startThenWrites_def by blast
  then show ?thesis
  proof cases
    case 1
    with split show ?thesis by simp
  next
    case 2
    with split have "?f pre @ WriteUnit u # ?f post = [StartPublisher m True]" by simp
    then show ?thesis by (cases "?f pre") auto
  next
    case 3
    with split have eq: "?f pre @ WriteUnit u # ?f post = StartPublisher m True # map WriteUnit us"
      by simp
    then have "StartPublisher m True \<in> set (?f pre)" by (cases "?f pre") auto
    then have "StartPublisher m True \<in> set pre" by simp
    with 3 show ?thesis by blast
  qed
qed

theorem start_before_first_write_witness:
  "fst (run (exampleEnv streamIDModePublish) exampleConn) =
     [HooksOnConnect, RecvChNew,
      AddPublisher (publishRequest exampleConn (exampleStreamID streamIDModePublish)),
      ConnReq CallIsEncrypted, ConnReq (CallSetPassphrase ''0123456789''),
      SendRes True, RecvChSetConn, SetState connStatePublish ''cam1'' [],
      SconnSetReadDeadline True, NewReader, ToStream,
      StartPublisher [Media MediaTypeVideo H264] True, ReaderRead] @
     WriteUnit 1 #
     [CtxDone, SconnClose, WriteUnit 2, ReaderRead, WriteUnit 3, ReaderRead, RecvReaderErr,
      RemovePublisher examplePath exampleConn, CtxCancel, ParentCloseConn,
      LogClosed (Some terminated), OnDisconnectHook, WgDone] \<and>
   toStreamRes (exampleEnv streamIDModePublish) = Inr [Media MediaTypeVideo H264] \<and>
   startPublisherRes (exampleEnv streamIDModePublish) = None"
proof -
  let ?P = "exampleEnv streamIDModePublish"
  have tr: "fst (run ?P exampleConn) =
     [HooksOnConnect, RecvChNew,
      AddPublisher (publishRequest exampleConn (exampleStreamID streamIDModePublish)),
      ConnReq CallIsEncrypted, ConnReq (CallSetPassphrase ''0123456789''),
      SendRes True, RecvChSetConn, SetState connStatePublish ''cam1'' [],
      SconnSetReadDeadline True, NewReader, ToStream,
      StartPublisher [Media MediaTypeVideo H264] True, ReaderRead] @
     WriteUnit 1 #
     [CtxDone, SconnClose, WriteUnit 2, ReaderRead, WriteUnit 3, ReaderRead, RecvReaderErr,
      RemovePublisher examplePath exampleConn, CtxCancel, ParentCloseConn,
      LogClosed (Some terminated), OnDisconnectHook, WgDone]"
    by (simp add: session_defs)
  from start_before_first_write [OF tr] show ?thesis
    using tr by auto
qed

subsection \<open>The pause after an authentication error\<close>

text \<open>
  C3. When \<open>AddPublisher\<close> or \<open>AddReader\<close> fails with an error that holds an
  \<open>AuthenticationError\<close>, the session waits \<open>pauseAfterAuthError\<close>, two seconds
  (2000000000 ns), and then returns the error: \<open>runPublish\<close> and \<open>runRead\<close> do
  nothing else, and the whole session makes that one call on the path manager,
  waits, answers nil to the listener and closes with the error.
\<close>

theorem auth_error_pause:
  assumes "errorsAs e = Some terr"
  shows "(addPublisherRes en = Inl e \<longrightarrow>
            runPublish en c req sid =
              ([AddPublisher (publishRequest c sid), TimeAfter 2000000000], Some (False, Some terr))) \<and>
         (addReaderRes en = Inl e \<longrightarrow>
            runRead en c req sid =
              ([AddReader (readRequest c sid), TimeAfter 2000000000], (False, Some e))) \<and>
         (newReq en = Some req \<and> unmarshal en (StreamId req) = Inr sid \<and>
          mode sid = streamIDModePublish \<and> addPublisherRes en = Inl e \<longrightarrow>
            run en c =
              ([HooksOnConnect, RecvChNew, AddPublisher (publishRequest c sid), TimeAfter 2000000000,
                SendRes False, CtxCancel, ParentCloseConn, LogClosed (Some terr), OnDisconnectHook,
                WgDone], True)) \<and>
         (newReq en = Some req \<and> unmarshal en (StreamId req) = Inr sid \<and>
          mode sid \<noteq> streamIDModePublish \<and> addReaderRes en = Inl e \<longrightarrow>
            run en c =
              ([HooksOnConnect, RecvChNew, AddReader (readRequest c sid), TimeAfter 2000000000,
                SendRes False, CtxCancel, ParentCloseConn, LogClosed (Some e), OnDisconnectHook,
                WgDone], True))"
proof -
  have p: "runPublish en c req sid =
      ([AddPublisher (publishRequest c sid), TimeAfter 2000000000], Some (False, Some terr))"
    if "addPublisherRes en = Inl e"
    using that assms by (simp add: runPublish_def pauseAfterAuthError_def second_def)
  have r: "runRead en c req sid =
      ([AddReader (readRequest c sid), TimeAfter 2000000000], (False, Some e))"
    if "addReaderRes en = Inl e"
    using that assms by (simp add: runRead_def pauseAfterAuthError_def second_def)
  from p r show ?thesis
    by (simp add: run_def runInner_def runInner2_def)
qed

theorem auth_error_pause_witness:
  "errorsAs exampleAuthError = Some (AuthenticationError ''wrong credentials'') \<and>
   run (exampleAuthEnv streamIDModePublish) exampleConn =
     ([HooksOnConnect, RecvChNew,
       AddPublisher (publishRequest exampleConn (exampleStreamID streamIDModePublish)),
       TimeAfter 2000000000, SendRes False, CtxCancel, ParentCloseConn,
       LogClosed (Some (AuthenticationError ''wrong credentials'')), OnDisconnectHook, WgDone],
      True) \<and>
   run (exampleAuthEnv streamIDModeRead) exampleConn =
     ([HooksOnConnect, RecvChNew,
       AddReader (readRequest exampleConn (exampleStreamID streamIDModeRead)),
       TimeAfter 2000000000, SendRes False, CtxCancel, ParentCloseConn,
       LogClosed (Some exampleAuthError), OnDisconnectHook, WgDone],
      True)"
proof -
  have e: "errorsAs exampleAuthError = Some (AuthenticationError ''wrong credentials'')"
    by (simp add: exampleAuthError_def)
  have p: "newReq (exampleAuthEnv streamIDModePublish) = Some exampleReq \<and>
      unmarshal (exampleAuthEnv streamIDModePublish) (StreamId exampleReq) =
        Inr (exampleStreamID streamIDModePublish) \<and>
      mode (exampleStreamID streamIDModePublish) = streamIDModePublish \<and>
      addPublisherRes (exampleAuthEnv streamIDModePublish) = Inl exampleAuthError"
    by (simp add: exampleAuthEnv_def exampleEnv_def exampleStreamID_def)
  have r: "newReq (exampleAuthEnv streamIDModeRead) = Some exampleReq \<and>
      unmarshal (exampleAuthEnv streamIDModeRead) (StreamId exampleReq) =
        Inr (exampleStreamID streamIDModeRead) \<and>
      mode (exampleStreamID streamIDModeRead) \<noteq> streamIDModePublish \<and>
      addReaderRes (exampleAuthEnv streamIDModeRead) = Inl exampleAuthError"
    by (simp add: exampleAuthEnv_def exampleEnv_def exampleStreamID_def)
  from e p r
    auth_error_pause [OF e, of "exampleAuthEnv streamIDModePublish" exampleConn exampleReq
      "exampleStreamID streamIDModePublish"]
    auth_error_pause [OF e, of "exampleAuthEnv streamIDModeRead" exampleConn exampleReq
      "exampleStreamID streamIDModeRead"]
  show ?thesis by blast
qed

section \<open>Properties: the stream\<close>

subsection \<open>Construction\<close>

lemma newStreamTracks_Inl:
  "(\<exists>e. newStreamTracks nst tracks g = Inl e) = (\<exists>t \<in> set tracks. isl (nst t g))"
  by (induction tracks) (auto split: sum.splits simp: isl_def)

lemma newStreamTracks_Inr:
  "newStreamTracks nst tracks g = Inr sts \<Longrightarrow> map (\<lambda>t. nst t g) tracks = map Inr sts"
  by (induction tracks arbitrary: sts) (auto split: sum.splits)

text \<open>
  C4, as the code has it. For an empty description \<open>newStream\<close> returns a stream
  with no tracks, not an error. It returns an error when \<open>newStreamTrack\<close> fails on
  a track (a format that the RTP packetizer does not support, with
  \<open>generateRTPPackets\<close> true). When \<open>newStreamTrack\<close> fails on no track, it returns
  a stream with no readers and one stream track per track of the description, made
  from the tracks in their order.
\<close>

theorem newStream_result:
  "newStream nst [] g = Inr \<lparr>nonRTSPReaders = {}, rtspStream = [], streamTracks = []\<rparr> \<and>
   ((\<exists>t \<in> set tracks. isl (nst t g)) \<longrightarrow> isl (newStream nst tracks g)) \<and>
   ((\<forall>t \<in> set tracks. \<not> isl (nst t g)) \<longrightarrow>
      (\<exists>s. newStream nst tracks g = Inr s \<and> nonRTSPReaders s = {} \<and> rtspStream s = tracks \<and>
           length (streamTracks s) = length tracks \<and>
           map (\<lambda>t. nst t g) tracks = map Inr (streamTracks s)))"
proof (intro conjI impI)
  show "newStream nst [] g = Inr \<lparr>nonRTSPReaders = {}, rtspStream = [], streamTracks = []\<rparr>"
    by (simp add: newStream_def)
next
  assume "\<exists>t \<in> set tracks. isl (nst t g)"
  then obtain e where "newStreamTracks nst tracks g = Inl e"
    using newStreamTracks_Inl [of nst tracks g] by blast
  then show "isl (newStream nst tracks g)" by (simp add: newStream_def)
next
  assume "\<forall>t \<in> set tracks. \<not> isl (nst t g)"
  then have "\<not> (\<exists>e. newStreamTracks nst tracks g = Inl e)"
    using newStreamTracks_Inl [of nst tracks g] by blast
  then obtain sts where sts: "newStreamTracks nst tracks g = Inr sts"
    by (cases "newStreamTracks nst tracks g") auto
  from newStreamTracks_Inr [OF sts] have m: "map (\<lambda>t. nst t g) tracks = map Inr sts" .
  then have "length tracks = length sts" by (metis length_map)
  with sts m show "\<exists>s. newStream nst tracks g = Inr s \<and> nonRTSPReaders s = {} \<and>
      rtspStream s = tracks \<and> length (streamTracks s) = length tracks \<and>
      map (\<lambda>t. nst t g) tracks = map Inr (streamTracks s)"
    by (simp add: newStream_def)
qed

theorem newStream_result_witness:
  "list_all (\<lambda>t. \<not> isl (newStreamTrack t True)) exampleTracks \<and>
   newStream newStreamTrack exampleTracks True = Inr exampleStream \<and>
   (\<exists>t \<in> set (exampleTracks @ [\<lparr>trackName = ''Opus'', packetizerSupports = False\<rparr>]).
      isl (newStreamTrack t True)) \<and>
   isl (newStream newStreamTrack
          (exampleTracks @ [\<lparr>trackName = ''Opus'', packetizerSupports = False\<rparr>]) True)"
proof -
  have ok: "\<forall>t \<in> set exampleTracks. \<not> isl (newStreamTrack t True)"
    by (simp add: exampleTracks_def newStreamTrack_def)
  have bad: "\<exists>t \<in> set (exampleTracks @ [\<lparr>trackName = ''Opus'', packetizerSupports = False\<rparr>]).
      isl (newStreamTrack t True)"
    by (simp add: newStreamTrack_def)
  from ok newStream_result [of newStreamTrack True exampleTracks] obtain s where
    s: "newStream newStreamTrack exampleTracks True = Inr s" "nonRTSPReaders s = {}"
      "rtspStream s = exampleTracks"
      "map (\<lambda>t. newStreamTrack t True) exampleTracks = map Inr (streamTracks s)"
    by blast
  from s(4) have "streamTracks s =
      [StreamTrack (exampleTracks ! 0) True, StreamTrack (exampleTracks ! 1) True]"
    by (cases "streamTracks s"; cases "tl (streamTracks s)")
      (auto simp: exampleTracks_def newStreamTrack_def)
  with s(2,3) have "s = exampleStream"
    by (simp add: exampleStream_def)
  with s(1) have r: "newStream newStreamTrack exampleTracks True = Inr exampleStream"
    by simp
  from ok have la: "list_all (\<lambda>t. \<not> isl (newStreamTrack t True)) exampleTracks"
    by (simp add: list_all_iff)
  from r la bad
    newStream_result [of newStreamTrack True
      "exampleTracks @ [\<lparr>trackName = ''Opus'', packetizerSupports = False\<rparr>]"]
  show ?thesis by blast
qed

text \<open>
  The claim as stated fails on the empty description: even with
  \<open>generateRTPPackets\<close> true, \<open>newStream\<close> returns a stream and no error.
\<close>

theorem newStream_empty_counterexample:
  "newStream newStreamTrack [] True =
     Inr \<lparr>nonRTSPReaders = {}, rtspStream = [], streamTracks = []\<rparr>"
  by (simp add: newStream_def)

subsection \<open>Delivery to the readers\<close>






















section \<open>Properties: the HLS source\<close>

subsection \<open>What the closures and one attempt do\<close>

lemma onTracks_cases:
  assumes "onTracks vs v a res = (vs', evs, e)"
  shows "(\<exists>ts. Err res \<noteq> None \<and> evs = [OnSourceStaticSetReady ts res] \<and>
             streamVar vs' = streamVar vs) \<or>
         (\<exists>ts. Err res = None \<and> evs = [OnSourceStaticSetReady ts res, LogReady, RtcpSendersNew ts] \<and>
             streamVar vs' = Stream res)"
  using assms by (auto simp: onTracks_def Let_def split: option.splits)

lemma clientCallbacks_inv:
  assumes "clientCallbacks vs cbs = (vs', evs)" and "\<forall>cb \<in> set cbs. replyHasStream cb"
  shows "OnSourceStaticSetNotReady \<notin> set evs \<and> filter isTeardown evs = [] \<and>
         filter isNewClient evs = [] \<and>
         (streamVar vs' \<noteq> None) = (streamVar vs \<noteq> None \<or> (\<exists>ev \<in> set evs. isReadyOk ev)) \<and>
         length (filter isReadyOk evs) \<le> length (filter isOnTracks cbs)"
  using assms
proof (induction vs cbs arbitrary: vs' evs rule: clientCallbacks.induct)
  case (1 vs)
  then show ?case by simp
next
  case (2 vs v a res cbs)
  obtain vs1 evs1 e where ot: "onTracks vs v a res = (vs1, evs1, e)"
    by (cases "onTracks vs v a res") auto
  obtain vs2 evs2 where cc: "clientCallbacks vs1 cbs = (vs2, evs2)"
    by (cases "clientCallbacks vs1 cbs") auto
  from 2(2) ot cc have eq: "vs' = vs2" "evs = evs1 @ evs2" by auto
  from 2(3) have good: "Err res \<noteq> None \<or> Stream res \<noteq> None" and rest: "\<forall>cb \<in> set cbs. replyHasStream cb"
    by (auto simp: replyHasStream_def)
  note IH = 2(1) [OF ot [symmetric] refl cc rest]
  from onTracks_cases [OF ot] show ?case
  proof (elim disjE exE conjE)
    fix ts assume "Err res \<noteq> None" "evs1 = [OnSourceStaticSetReady ts res]" "streamVar vs1 = streamVar vs"
    with IH eq show ?thesis
      by (auto simp: isReadyOk_def isTeardown_def isNewClient_def isOnTracks_def)
  next
    fix ts assume "Err res = None" "evs1 = [OnSourceStaticSetReady ts res, LogReady, RtcpSendersNew ts]"
      "streamVar vs1 = Stream res"
    with IH eq good show ?thesis
      by (auto simp: isReadyOk_def isTeardown_def isNewClient_def isOnTracks_def)
  qed
next
  case (3 vs isVideo payload cbs)
  obtain vs2 evs2 where cc: "clientCallbacks vs cbs = (vs2, evs2)"
    by (cases "clientCallbacks vs cbs") auto
  from 3(2) cc have eq: "vs' = vs2" "evs = onFrame vs isVideo payload @ evs2" by auto
  from 3(3) have rest: "\<forall>cb \<in> set cbs. replyHasStream cb" by simp
  from 3(1) [OF cc rest] eq show ?case
    by (auto simp: onFrame_def Let_def isReadyOk_def isTeardown_def isNewClient_def isOnTracks_def)
qed

lemma onTracks_events:
  assumes "onTracks vs v a res = (vs', evs, e)"
  shows "filter isTeardown evs = [] \<and> filter isNewClient evs = [] \<and>
         OnSourceStaticSetNotReady \<notin> set evs \<and> count_list evs (SourceTimeAfter rp) = 0"
  using onTracks_cases [OF assms]
  by (auto simp: isTeardown_def isNewClient_def)

lemma clientCallbacks_events:
  assumes "clientCallbacks vs cbs = (vs', evs)"
  shows "filter isTeardown evs = [] \<and> filter isNewClient evs = [] \<and>
         OnSourceStaticSetNotReady \<notin> set evs \<and> count_list evs (SourceTimeAfter rp) = 0"
  using assms
proof (induction vs cbs arbitrary: vs' evs rule: clientCallbacks.induct)
  case (1 vs)
  then show ?case by simp
next
  case (2 vs v a res cbs)
  obtain vs1 evs1 e where ot: "onTracks vs v a res = (vs1, evs1, e)"
    by (cases "onTracks vs v a res") auto
  obtain vs2 evs2 where cc: "clientCallbacks vs1 cbs = (vs2, evs2)"
    by (cases "clientCallbacks vs1 cbs") auto
  from 2(2) ot cc have eq: "evs = evs1 @ evs2" by auto
  from 2(1) [OF ot [symmetric] refl cc] onTracks_events [OF ot, of rp] eq show ?case
    by simp
next
  case (3 vs isVideo payload cbs)
  obtain vs2 evs2 where cc: "clientCallbacks vs cbs = (vs2, evs2)"
    by (cases "clientCallbacks vs cbs") auto
  from 3(2) cc have eq: "evs = onFrame vs isVideo payload @ evs2" by auto
  from 3(1) [OF cc] eq show ?case
    by (auto simp: onFrame_def Let_def isTeardown_def isNewClient_def)
qed

lemma deferredCleanup_events:
  "filter isTeardown (deferredCleanup vs) = [] \<and> filter isNewClient (deferredCleanup vs) = [] \<and>
   count_list (deferredCleanup vs) (SourceTimeAfter rp) = 0 \<and>
   filter isReadyOk (deferredCleanup vs) = []"
  by (simp add: deferredCleanup_def isTeardown_def isNewClient_def isReadyOk_def)

lemma runInner_err:
  "snd (hlsSource_runInner ur (UpstreamErr cbs e)) \<and>
   filter isTeardown (fst (hlsSource_runInner ur (UpstreamErr cbs e))) = [ClientWait] \<and>
   filter isNewClient (fst (hlsSource_runInner ur (UpstreamErr cbs e))) = [NewClient ur] \<and>
   count_list (fst (hlsSource_runInner ur (UpstreamErr cbs e))) (SourceTimeAfter rp) = 0"
proof -
  obtain vs evs where cc: "clientCallbacks initVars cbs = (vs, evs)"
    by (cases "clientCallbacks initVars cbs") auto
  from clientCallbacks_events [OF cc, of rp] deferredCleanup_events [of vs rp] show ?thesis
    by (simp add: hlsSource_runInner_def cc isTeardown_def isNewClient_def)
qed

lemma runInner_cancelled:
  "\<not> snd (hlsSource_runInner ur (Cancelled cbs late)) \<and>
   filter isTeardown (fst (hlsSource_runInner ur (Cancelled cbs late))) =
     [SourceCtxDone, ClientClose, ClientWait] \<and>
   filter isNewClient (fst (hlsSource_runInner ur (Cancelled cbs late))) = [NewClient ur]"
proof -
  obtain vs evs where cc: "clientCallbacks initVars cbs = (vs, evs)"
    by (cases "clientCallbacks initVars cbs") auto
  obtain vs' evs' where cc': "clientCallbacks vs late = (vs', evs')"
    by (cases "clientCallbacks vs late") auto
  from clientCallbacks_events [OF cc, of 0] clientCallbacks_events [OF cc', of 0]
    deferredCleanup_events [of vs' 0] show ?thesis
    by (simp add: hlsSource_runInner_def cc cc' isTeardown_def isNewClient_def)
qed

subsection \<open>The supervisor loop\<close>

lemma runLoop_retries:
  assumes "\<forall>x \<in> set pre. errThenTimer x"
  shows "runLoop ur rp (pre @ rest) =
           (fst (runLoop ur rp pre) @ fst (runLoop ur rp rest), snd (runLoop ur rp rest)) \<and>
         \<not> snd (runLoop ur rp pre) \<and>
         length (filter isNewClient (fst (runLoop ur rp pre))) = length pre \<and>
         count_list (fst (runLoop ur rp pre)) (SourceTimeAfter rp) = length pre \<and>
         filter isTeardown (fst (runLoop ur rp pre)) = replicate (length pre) ClientWait"
  using assms
proof (induction pre)
  case Nil
  show ?case by simp
next
  case (Cons x pre)
  from Cons.prems obtain cbs e where x: "x = (UpstreamErr cbs e, TimerFired)"
    by (cases x; cases "fst x"; cases "snd x") (auto simp: errThenTimer_def)
  from Cons.prems have "\<forall>x \<in> set pre. errThenTimer x" by simp
  note IH = Cons.IH [OF this]
  obtain tr ok where ri: "hlsSource_runInner ur (UpstreamErr cbs e) = (tr, ok)"
    by (cases "hlsSource_runInner ur (UpstreamErr cbs e)") auto
  from runInner_err [of ur cbs e rp] ri have ok: "ok"
    and t: "filter isTeardown tr = [ClientWait]"
    and n: "filter isNewClient tr = [NewClient ur]"
    and c: "count_list tr (SourceTimeAfter rp) = 0"
    by simp_all
  have nt: "\<not> isNewClient (SourceTimeAfter rp)" "\<not> isTeardown (SourceTimeAfter rp)"
    by (simp_all add: isNewClient_def isTeardown_def)
  from IH ok t n c nt show ?case
    by (simp add: x ri case_prod_beta)
qed

lemma runLoop_left:
  "snd (runLoop ur rp script) \<Longrightarrow> SourceCtxDone \<in> set (fst (runLoop ur rp script))"
proof (induction script)
  case Nil
  then show ?case by simp
next
  case (Cons x script)
  obtain a p where x: "x = (a, p)" by (cases x)
  show ?case
  proof (cases a)
    case (UpstreamErr cbs e)
    obtain tr ok where ri: "hlsSource_runInner ur (UpstreamErr cbs e) = (tr, ok)"
      by (cases "hlsSource_runInner ur (UpstreamErr cbs e)") auto
    from runInner_err [of ur cbs e rp] ri have ok: "ok" by simp
    from Cons ok show ?thesis
      by (cases p) (auto simp: x UpstreamErr ri split: prod.splits)
  next
    case (Cancelled cbs late)
    obtain tr ok where ri: "hlsSource_runInner ur (Cancelled cbs late) = (tr, ok)"
      by (cases "hlsSource_runInner ur (Cancelled cbs late)") auto
    from runInner_cancelled [of ur cbs late] ri have ok: "\<not> ok"
      and t: "filter isTeardown tr = [SourceCtxDone, ClientClose, ClientWait]"
      by simp_all
    from t have "SourceCtxDone \<in> set (filter isTeardown tr)" by simp
    then have "SourceCtxDone \<in> set tr" by simp
    with ok show ?thesis
      by (simp add: x Cancelled ri)
  qed
qed

text \<open>
  C8. Let the supervisor have made the attempts \<open>pre\<close>, each ended by an upstream
  error and followed by the timer. Then \<open>run\<close> has not returned, and it has created
  one client and waited \<open>retryPause\<close> once per attempt. An attempt that ends with
  an upstream error returns true; if the timer fires next, the supervisor has waited
  \<open>retryPause\<close> and goes on with the next attempt as from the start; if the context
  is done first, the loop is left and \<open>run\<close> returns. When the context is done
  during an attempt, the attempt closes the client, then waits for its end, exactly
  once each and in that order, and \<open>run\<close> returns after the attempt. In every
  execution, \<open>run\<close> returns only after the context was seen done: an upstream
  error never ends the supervisor.
\<close>

theorem retry_until_cancelled:
  assumes "\<forall>x \<in> set pre. errThenTimer x"
  shows "\<not> snd (hlsSource_run ur rp pre) \<and>
     length (filter isNewClient (fst (hlsSource_run ur rp pre))) = length pre \<and>
     count_list (fst (hlsSource_run ur rp pre)) (SourceTimeAfter rp) = length pre \<and>
     snd (hlsSource_runInner ur (UpstreamErr cbs e)) \<and>
     hlsSource_run ur rp (pre @ (UpstreamErr cbs e, TimerFired) # rest) =
       (fst (hlsSource_run ur rp pre) @ fst (hlsSource_runInner ur (UpstreamErr cbs e)) @
        [SourceTimeAfter rp] @ fst (hlsSource_run ur rp rest), snd (hlsSource_run ur rp rest)) \<and>
     hlsSource_run ur rp (pre @ (UpstreamErr cbs e, CtxDoneInPause) # rest) =
       (fst (hlsSource_run ur rp pre) @ fst (hlsSource_runInner ur (UpstreamErr cbs e)) @
        [SourceCtxDone, SourceCtxCancel, SourceWgDone], True) \<and>
     hlsSource_run ur rp (pre @ (Cancelled cbs late, p) # rest) =
       (fst (hlsSource_run ur rp pre) @ fst (hlsSource_runInner ur (Cancelled cbs late)) @
        [SourceCtxCancel, SourceWgDone], True) \<and>
     filter isTeardown (fst (hlsSource_runInner ur (Cancelled cbs late))) =
       [SourceCtxDone, ClientClose, ClientWait] \<and>
     (snd (hlsSource_run ur rp script) \<longrightarrow>
        SourceCtxDone \<in> set (fst (hlsSource_run ur rp script)))"
proof -
  note R = runLoop_retries [OF assms, of ur rp]
  have pre: "hlsSource_run ur rp pre = (fst (runLoop ur rp pre), False)"
    using R [of "[]"] by (simp add: hlsSource_run_def case_prod_beta)
  obtain tr where ri: "hlsSource_runInner ur (UpstreamErr cbs e) = (tr, True)"
    using runInner_err [of ur cbs e rp] by (cases "hlsSource_runInner ur (UpstreamErr cbs e)") auto
  obtain tc where rc: "hlsSource_runInner ur (Cancelled cbs late) = (tc, False)"
    using runInner_cancelled [of ur cbs late]
    by (cases "hlsSource_runInner ur (Cancelled cbs late)") auto
  have 1: "\<not> snd (hlsSource_run ur rp pre)" by (simp add: pre)
  have 2: "length (filter isNewClient (fst (hlsSource_run ur rp pre))) = length pre"
    using R [of "[]"] by (simp add: pre)
  have 3: "count_list (fst (hlsSource_run ur rp pre)) (SourceTimeAfter rp) = length pre"
    using R [of "[]"] by (simp add: pre)
  have 4: "snd (hlsSource_runInner ur (UpstreamErr cbs e))" by (simp add: ri)
  have 5: "hlsSource_run ur rp (pre @ (UpstreamErr cbs e, TimerFired) # rest) =
       (fst (hlsSource_run ur rp pre) @ fst (hlsSource_runInner ur (UpstreamErr cbs e)) @
        [SourceTimeAfter rp] @ fst (hlsSource_run ur rp rest), snd (hlsSource_run ur rp rest))"
    using R [of "(UpstreamErr cbs e, TimerFired) # rest"]
    by (simp add: hlsSource_run_def pre ri case_prod_beta)
  have 6: "hlsSource_run ur rp (pre @ (UpstreamErr cbs e, CtxDoneInPause) # rest) =
       (fst (hlsSource_run ur rp pre) @ fst (hlsSource_runInner ur (UpstreamErr cbs e)) @
        [SourceCtxDone, SourceCtxCancel, SourceWgDone], True)"
    using R [of "(UpstreamErr cbs e, CtxDoneInPause) # rest"]
    by (simp add: hlsSource_run_def pre ri case_prod_beta)
  have 7: "hlsSource_run ur rp (pre @ (Cancelled cbs late, p) # rest) =
       (fst (hlsSource_run ur rp pre) @ fst (hlsSource_runInner ur (Cancelled cbs late)) @
        [SourceCtxCancel, SourceWgDone], True)"
    using R [of "(Cancelled cbs late, p) # rest"]
    by (simp add: hlsSource_run_def pre rc case_prod_beta)
  have 8: "filter isTeardown (fst (hlsSource_runInner ur (Cancelled cbs late))) =
       [SourceCtxDone, ClientClose, ClientWait]"
    using runInner_cancelled [of ur cbs late] by simp
  have 9: "snd (hlsSource_run ur rp script) \<longrightarrow>
        SourceCtxDone \<in> set (fst (hlsSource_run ur rp script))"
    using runLoop_left [of ur rp script]
    by (auto simp: hlsSource_run_def split: prod.splits if_splits)
  from 1 2 3 4 5 6 7 8 9 show ?thesis by blast
qed

theorem retry_until_cancelled_witness:
  "list_all errThenTimer exampleScript \<and>
   \<not> snd (hlsSource_run ''http://example.org/stream.m3u8'' 5000000000 exampleScript) \<and>
   length (filter isNewClient
     (fst (hlsSource_run ''http://example.org/stream.m3u8'' 5000000000 exampleScript))) = 2 \<and>
   count_list (fst (hlsSource_run ''http://example.org/stream.m3u8'' 5000000000 exampleScript))
     (SourceTimeAfter 5000000000) = 2 \<and>
   snd (hlsSource_run ''http://example.org/stream.m3u8'' 5000000000
     (exampleScript @ [(Cancelled exampleCallbacks [], TimerFired)])) \<and>
   SourceCtxDone \<in> set (fst (hlsSource_run ''http://example.org/stream.m3u8'' 5000000000
     (exampleScript @ [(Cancelled exampleCallbacks [], TimerFired)])))"
proof -
  have h: "\<forall>x \<in> set exampleScript. errThenTimer x"
    by (simp add: exampleScript_def errThenTimer_def)
  note t = retry_until_cancelled [OF h, where ur = "''http://example.org/stream.m3u8''" and
      rp = 5000000000 and cbs = exampleCallbacks and e = None and rest = "[]" and late = "[]" and
      p = TimerFired and script = "exampleScript @ [(Cancelled exampleCallbacks [], TimerFired)]"]
  have l: "length exampleScript = 2"
    by (simp add: exampleScript_def)
  from h have la: "list_all errThenTimer exampleScript"
    by (simp add: list_all_iff)
  from t la l show ?thesis
    by (metis snd_conv)
qed

subsection \<open>Ready and not ready\<close>

lemma readyStream_append:
  "readyStream st (xs @ ys) = readyStream (readyStream st xs) ys"
  by (induction st xs rule: readyStream.induct) simp_all

lemma readyStream_some:
  "readyStream st evs \<noteq> None \<Longrightarrow> st \<noteq> None \<or> (\<exists>ev \<in> set evs. isReadyOk ev)"
proof (induction st evs rule: readyStream.induct)
  case (1 st)
  then show ?case by simp
next
  case (2 st ts res evs)
  then show ?case by (cases "Err res = None") (auto simp: isReadyOk_def)
qed auto

lemma onTracks_ready:
  assumes "onTracks vs v a res = (vs', evs, e)"
  shows "streamVar vs' = readyStream (streamVar vs) evs \<and>
         length (filter isReadyOk evs) \<le> 1"
  using onTracks_cases [OF assms] by (auto simp: isReadyOk_def)

lemma clientCallbacks_ready:
  assumes "clientCallbacks vs cbs = (vs', evs)"
  shows "streamVar vs' = readyStream (streamVar vs) evs \<and>
         length (filter isReadyOk evs) \<le> length (filter isOnTracks cbs)"
  using assms
proof (induction vs cbs arbitrary: vs' evs rule: clientCallbacks.induct)
  case (1 vs)
  then show ?case by simp
next
  case (2 vs v a res cbs)
  obtain vs1 evs1 e where ot: "onTracks vs v a res = (vs1, evs1, e)"
    by (cases "onTracks vs v a res") auto
  obtain vs2 evs2 where cc: "clientCallbacks vs1 cbs = (vs2, evs2)"
    by (cases "clientCallbacks vs1 cbs") auto
  from 2(2) ot cc have eq: "vs' = vs2" "evs = evs1 @ evs2" by auto
  from 2(1) [OF ot [symmetric] refl cc] onTracks_ready [OF ot] eq show ?case
    by (simp add: readyStream_append isOnTracks_def)
next
  case (3 vs isVideo payload cbs)
  obtain vs2 evs2 where cc: "clientCallbacks vs cbs = (vs2, evs2)"
    by (cases "clientCallbacks vs cbs") auto
  from 3(2) cc have eq: "vs' = vs2" "evs = onFrame vs isVideo payload @ evs2" by auto
  have f: "readyStream (streamVar vs) (onFrame vs isVideo payload) = streamVar vs"
    "filter isReadyOk (onFrame vs isVideo payload) = []"
    by (simp_all add: onFrame_def Let_def isReadyOk_def)
  from 3(1) [OF cc] eq f show ?case
    by (simp add: readyStream_append isOnTracks_def)
qed

lemma clientCallbacks_stream:
  assumes "clientCallbacks vs cbs = (vs', evs)" and "\<forall>cb \<in> set cbs. replyHasStream cb"
  shows "(streamVar vs' \<noteq> None) = (streamVar vs \<noteq> None \<or> (\<exists>ev \<in> set evs. isReadyOk ev))"
  using clientCallbacks_inv [OF assms] by blast

lemma runInner_shape:
  "\<exists>body vs. fst (hlsSource_runInner ur a) = body @ deferredCleanup vs \<and>
     OnSourceStaticSetNotReady \<notin> set body \<and>
     streamVar vs = readyStream None body \<and>
     length (filter isReadyOk body) \<le> length (filter isOnTracks (attemptCallbacks a)) \<and>
     ((\<forall>cb \<in> set (attemptCallbacks a). replyHasStream cb) \<longrightarrow>
        (streamVar vs \<noteq> None) = (\<exists>ev \<in> set body. isReadyOk ev))"
proof (cases a)
  case (UpstreamErr cbs e)
  obtain vs evs where cc: "clientCallbacks initVars cbs = (vs, evs)"
    by (cases "clientCallbacks initVars cbs") auto
  let ?body = "NewClient ur # evs @ [ClientWait, LogError e]"
  have f: "fst (hlsSource_runInner ur a) = ?body @ deferredCleanup vs"
    by (simp add: UpstreamErr hlsSource_runInner_def cc)
  from clientCallbacks_events [OF cc, of 0] have n: "OnSourceStaticSetNotReady \<notin> set ?body"
    by simp
  from clientCallbacks_ready [OF cc]
  have s: "streamVar vs = readyStream None ?body"
    and l: "length (filter isReadyOk ?body) \<le> length (filter isOnTracks (attemptCallbacks a))"
    by (simp_all add: initVars_def isReadyOk_def UpstreamErr attemptCallbacks_def
        readyStream_append)
  have c: "(\<forall>cb \<in> set (attemptCallbacks a). replyHasStream cb) \<longrightarrow>
        (streamVar vs \<noteq> None) = (\<exists>ev \<in> set ?body. isReadyOk ev)"
  proof
    assume "\<forall>cb \<in> set (attemptCallbacks a). replyHasStream cb"
    then have g: "\<forall>cb \<in> set cbs. replyHasStream cb"
      by (simp add: UpstreamErr attemptCallbacks_def)
    from clientCallbacks_stream [OF cc g]
    show "(streamVar vs \<noteq> None) = (\<exists>ev \<in> set ?body. isReadyOk ev)"
      by (auto simp: initVars_def isReadyOk_def)
  qed
  from f n s l c show ?thesis by blast
next
  case (Cancelled cbs late)
  obtain vs evs where cc: "clientCallbacks initVars cbs = (vs, evs)"
    by (cases "clientCallbacks initVars cbs") auto
  obtain vs' evs' where cc': "clientCallbacks vs late = (vs', evs')"
    by (cases "clientCallbacks vs late") auto
  let ?body = "NewClient ur # evs @ [SourceCtxDone, ClientClose] @ evs' @ [ClientWait]"
  have f: "fst (hlsSource_runInner ur a) = ?body @ deferredCleanup vs'"
    by (simp add: Cancelled hlsSource_runInner_def cc cc')
  from clientCallbacks_events [OF cc, of 0] clientCallbacks_events [OF cc', of 0]
  have n: "OnSourceStaticSetNotReady \<notin> set ?body"
    by simp
  from clientCallbacks_ready [OF cc] clientCallbacks_ready [OF cc']
  have s: "streamVar vs' = readyStream None ?body"
    and l: "length (filter isReadyOk ?body) \<le> length (filter isOnTracks (attemptCallbacks a))"
    by (simp_all add: initVars_def isReadyOk_def Cancelled attemptCallbacks_def
        readyStream_append)
  have c: "(\<forall>cb \<in> set (attemptCallbacks a). replyHasStream cb) \<longrightarrow>
        (streamVar vs' \<noteq> None) = (\<exists>ev \<in> set ?body. isReadyOk ev)"
  proof
    assume "\<forall>cb \<in> set (attemptCallbacks a). replyHasStream cb"
    then have g: "\<forall>cb \<in> set cbs. replyHasStream cb" and g': "\<forall>cb \<in> set late. replyHasStream cb"
      by (simp_all add: Cancelled attemptCallbacks_def)
    from clientCallbacks_stream [OF cc g] clientCallbacks_stream [OF cc' g']
    show "(streamVar vs' \<noteq> None) = (\<exists>ev \<in> set ?body. isReadyOk ev)"
      by (auto simp: initVars_def isReadyOk_def)
  qed
  from f n s l c show ?thesis by blast
qed

text \<open>
  C10, as the code has it. In every attempt, \<open>OnSourceStaticSetNotReady\<close> is called
  exactly when the last answer of \<open>OnSourceStaticSetReady\<close> without an error carried
  a stream: the deferred function tests the variable \<open>stream\<close>, not the error of
  the answer. It is called at most once, on exit, followed only by the closing of
  the RTCP senders, and only after a call of \<open>OnSourceStaticSetReady\<close> in the
  attempt that returned no error. When every answer without an error carries a
  stream, it is called exactly when \<open>OnSourceStaticSetReady\<close> was called in the
  attempt and returned no error; and when in addition the client calls \<open>onTracks\<close>
  at most once, there are as many calls of \<open>OnSourceStaticSetNotReady\<close> as calls of
  \<open>OnSourceStaticSetReady\<close> without an error.
\<close>

theorem notReady_iff_ready:
  "(OnSourceStaticSetNotReady \<in> set (fst (hlsSource_runInner ur a))) =
     (readyStream None (fst (hlsSource_runInner ur a)) \<noteq> None) \<and>
   count_list (fst (hlsSource_runInner ur a)) OnSourceStaticSetNotReady \<le> 1 \<and>
   (\<forall>pre post. fst (hlsSource_runInner ur a) = pre @ OnSourceStaticSetNotReady # post \<longrightarrow>
      post = [RtcpSendersClose] \<and> (\<exists>ev \<in> set pre. isReadyOk ev)) \<and>
   (list_all replyHasStream (attemptCallbacks a) \<longrightarrow>
      (OnSourceStaticSetNotReady \<in> set (fst (hlsSource_runInner ur a))) =
        (\<exists>ev \<in> set (fst (hlsSource_runInner ur a)). isReadyOk ev)) \<and>
   (list_all replyHasStream (attemptCallbacks a) \<and>
    length (filter isOnTracks (attemptCallbacks a)) \<le> 1 \<longrightarrow>
      count_list (fst (hlsSource_runInner ur a)) OnSourceStaticSetNotReady =
        length (filter isReadyOk (fst (hlsSource_runInner ur a))))"
proof -
  let ?tr = "fst (hlsSource_runInner ur a)"
  let ?good = "list_all replyHasStream (attemptCallbacks a)"
  from runInner_shape [of ur a] obtain body vs where
    f: "?tr = body @ deferredCleanup vs"
    and n: "OnSourceStaticSetNotReady \<notin> set body"
    and s: "streamVar vs = readyStream None body"
    and l: "length (filter isReadyOk body) \<le> length (filter isOnTracks (attemptCallbacks a))"
    and c': "(\<forall>cb \<in> set (attemptCallbacks a). replyHasStream cb) \<longrightarrow>
        (streamVar vs \<noteq> None) = (\<exists>ev \<in> set body. isReadyOk ev)"
    by blast
  have c: "?good \<longrightarrow> (streamVar vs \<noteq> None) = (\<exists>ev \<in> set body. isReadyOk ev)"
    using c' by (simp add: list_all_iff)
  have c0: "count_list body OnSourceStaticSetNotReady = 0"
    using n by (simp add: count_list_0_iff)
  have rs: "readyStream None ?tr = streamVar vs"
    by (simp add: f readyStream_append s deferredCleanup_def)
  show ?thesis
  proof (cases "streamVar vs = None")
    case True
    have 4: "?good \<longrightarrow> (OnSourceStaticSetNotReady \<in> set ?tr) = (\<exists>ev \<in> set ?tr. isReadyOk ev)"
      using True c f n by (auto simp: deferredCleanup_def)
    have 5: "?good \<and> length (filter isOnTracks (attemptCallbacks a)) \<le> 1 \<longrightarrow>
        count_list ?tr OnSourceStaticSetNotReady = length (filter isReadyOk ?tr)"
    proof
      assume "?good \<and> length (filter isOnTracks (attemptCallbacks a)) \<le> 1"
      with c True have "\<forall>ev \<in> set body. \<not> isReadyOk ev" by blast
      then have "filter isReadyOk body = []" by (simp add: filter_empty_conv)
      with True c0 show "count_list ?tr OnSourceStaticSetNotReady = length (filter isReadyOk ?tr)"
        by (simp add: f deferredCleanup_def)
    qed
    from True f n c0 rs 4 5 show ?thesis
      by (auto simp: deferredCleanup_def)
  next
    case False
    with f have tr: "?tr = body @ OnSourceStaticSetNotReady # [RtcpSendersClose]"
      by (simp add: deferredCleanup_def)
    from False s have "readyStream None body \<noteq> None" by simp
    from readyStream_some [OF this] obtain ev where ev: "ev \<in> set body" "isReadyOk ev" by blast
    have 1: "(OnSourceStaticSetNotReady \<in> set ?tr) = (readyStream None ?tr \<noteq> None)"
      using tr rs False by simp
    have 2: "count_list ?tr OnSourceStaticSetNotReady \<le> 1"
      using c0 by (simp add: tr)
    have 3: "\<forall>pre post. ?tr = pre @ OnSourceStaticSetNotReady # post \<longrightarrow>
            post = [RtcpSendersClose] \<and> (\<exists>ev \<in> set pre. isReadyOk ev)"
    proof (intro allI impI)
      fix pre post assume "?tr = pre @ OnSourceStaticSetNotReady # post"
      with tr have "body @ OnSourceStaticSetNotReady # [RtcpSendersClose] =
          pre @ OnSourceStaticSetNotReady # post" by simp
      with n have "body = pre \<and> [RtcpSendersClose] = post"
        by (subst (asm) append_Cons_eq_iff) simp_all
      with ev show "post = [RtcpSendersClose] \<and> (\<exists>ev \<in> set pre. isReadyOk ev)" by blast
    qed
    have 4: "?good \<longrightarrow> (OnSourceStaticSetNotReady \<in> set ?tr) = (\<exists>ev \<in> set ?tr. isReadyOk ev)"
      using tr ev by auto
    have 5: "?good \<and> length (filter isOnTracks (attemptCallbacks a)) \<le> 1 \<longrightarrow>
            count_list ?tr OnSourceStaticSetNotReady = length (filter isReadyOk ?tr)"
    proof
      assume "?good \<and> length (filter isOnTracks (attemptCallbacks a)) \<le> 1"
      with l have le: "length (filter isReadyOk body) \<le> 1" by simp
      from ev have "filter isReadyOk body \<noteq> []" by (simp add: filter_empty_conv) blast
      with le have "length (filter isReadyOk body) = 1"
        by (cases "filter isReadyOk body") auto
      with c0 show "count_list ?tr OnSourceStaticSetNotReady = length (filter isReadyOk ?tr)"
        by (simp add: tr isReadyOk_def)
    qed
    from 1 2 3 4 5 show ?thesis by blast
  qed
qed

theorem notReady_iff_ready_witness:
  "list_all replyHasStream (attemptCallbacks (UpstreamErr exampleCallbacks (Some (ErrMsg ''EOF'')))) \<and>
   length (filter isOnTracks (attemptCallbacks (UpstreamErr exampleCallbacks (Some (ErrMsg ''EOF''))))) \<le> 1 \<and>
   fst (hlsSource_runInner ''u'' (UpstreamErr exampleCallbacks (Some (ErrMsg ''EOF'')))) =
     [NewClient ''u'',
      OnSourceStaticSetReady [exampleTracks ! 0, exampleTracks ! 1] exampleReady,
      LogReady, RtcpSendersNew [exampleTracks ! 0, exampleTracks ! 1],
      RtcpSendersOnFrame 1 [1, 2], StreamOnFrame 1 [1, 2],
      ClientWait, LogError (Some (ErrMsg ''EOF''))] @
     OnSourceStaticSetNotReady # [RtcpSendersClose] \<and>
   isReadyOk (OnSourceStaticSetReady [exampleTracks ! 0, exampleTracks ! 1] exampleReady) \<and>
   readyStream None (fst (hlsSource_runInner ''u''
     (UpstreamErr exampleCallbacks (Some (ErrMsg ''EOF''))))) = Some exampleStream \<and>
   count_list (fst (hlsSource_runInner ''u'' (UpstreamErr exampleCallbacks (Some (ErrMsg ''EOF'')))))
     OnSourceStaticSetNotReady = 1"
proof -
  let ?a = "UpstreamErr exampleCallbacks (Some (ErrMsg ''EOF''))"
  have h: "list_all replyHasStream (attemptCallbacks ?a)"
    by (simp add: attemptCallbacks_def exampleCallbacks_def replyHasStream_def exampleReady_def)
  have o: "length (filter isOnTracks (attemptCallbacks ?a)) \<le> 1"
    by (simp add: attemptCallbacks_def exampleCallbacks_def isOnTracks_def)
  have tr: "fst (hlsSource_runInner ''u'' ?a) =
     [NewClient ''u'',
      OnSourceStaticSetReady [exampleTracks ! 0, exampleTracks ! 1] exampleReady,
      LogReady, RtcpSendersNew [exampleTracks ! 0, exampleTracks ! 1],
      RtcpSendersOnFrame 1 [1, 2], StreamOnFrame 1 [1, 2],
      ClientWait, LogError (Some (ErrMsg ''EOF''))] @
     OnSourceStaticSetNotReady # [RtcpSendersClose]"
    by (simp add: hlsSource_runInner_def exampleCallbacks_def onTracks_def onFrame_def
        initVars_def deferredCleanup_def exampleReady_def Let_def)
  have r: "isReadyOk (OnSourceStaticSetReady [exampleTracks ! 0, exampleTracks ! 1] exampleReady)"
    by (simp add: isReadyOk_def exampleReady_def)
  have rs: "readyStream None (fst (hlsSource_runInner ''u'' ?a)) = Some exampleStream"
    unfolding tr by (simp add: exampleReady_def)
  have f: "length (filter isReadyOk (fst (hlsSource_runInner ''u'' ?a))) = 1"
    unfolding tr by (simp add: isReadyOk_def exampleReady_def)
  from notReady_iff_ready [of "''u''" ?a] h o f
  have "count_list (fst (hlsSource_runInner ''u'' ?a)) OnSourceStaticSetNotReady = 1"
    by simp
  with h o tr r rs show ?thesis by blast
qed

text \<open>
  The claim as stated fails in two ways. An answer of the path with neither an
  error nor a stream is a call of \<open>OnSourceStaticSetReady\<close> that returned without
  error, and no \<open>OnSourceStaticSetNotReady\<close> follows. And when the client calls
  \<open>onTracks\<close> twice, two successful calls of \<open>OnSourceStaticSetReady\<close> are followed
  by one \<open>OnSourceStaticSetNotReady\<close>.
\<close>

theorem notReady_iff_ready_counterexample:
  "fst (hlsSource_runInner ''u''
       (UpstreamErr [OnTracks (Some (exampleTracks ! 0)) None exampleNilReady] None)) =
     [NewClient ''u'', OnSourceStaticSetReady [exampleTracks ! 0] exampleNilReady,
      LogReady, RtcpSendersNew [exampleTracks ! 0], ClientWait, LogError None] \<and>
   Err exampleNilReady = None \<and>
   fst (hlsSource_runInner ''u''
       (UpstreamErr [OnTracks (Some (exampleTracks ! 0)) None exampleReady,
                     OnTracks (Some (exampleTracks ! 0)) None exampleReady] None)) =
     [NewClient ''u'',
      OnSourceStaticSetReady [exampleTracks ! 0] exampleReady,
      LogReady, RtcpSendersNew [exampleTracks ! 0],
      OnSourceStaticSetReady [exampleTracks ! 0] exampleReady,
      LogReady, RtcpSendersNew [exampleTracks ! 0],
      ClientWait, LogError None, OnSourceStaticSetNotReady, RtcpSendersClose] \<and>
   Err exampleReady = None"
  by (simp add: hlsSource_runInner_def onTracks_def initVars_def deferredCleanup_def
      exampleReady_def exampleNilReady_def Let_def)

section \<open>Properties: the tracks of the fMP4 init\<close>

lemma initTracksFrom_ids: "map TrackID (initTracksFrom n ms) = [n..<n + length ms]"
proof (induction ms arbitrary: n)
  case Nil
  show ?case by simp
next
  case (Cons m ms)
  have "[n..<n + length (m # ms)] = n # [Suc n..<Suc n + length ms]"
    by (simp add: upt_rec)
  with Cons [of "Suc n"] show ?case by simp
qed

lemma initTracksFrom_scales:
  "map TimeScale (initTracksFrom n ms) = map (\<lambda>m. formatTimeScale (mediaFormat m)) ms"
  by (induction ms arbitrary: n) simp_all

text \<open>
  C6. For a description of \<open>N\<close> medias the init has \<open>N\<close> tracks, their IDs are
  \<open>1, \<dots>, N\<close> in the order of the description, and the time scale of each track is
  that of the format of its media: 90000 for H.264 and H.265, the sample rate for
  MPEG-4 audio, G.711 and LPCM. For the description of the test, the IDs are 1 to 5
  and the time scales 90000, 90000, 44100, 8000 and 44100.
\<close>

theorem initTracks_ids_and_scales:
  "length (initTracks desc) = length desc \<and>
   map TrackID (initTracks desc) = [1..<Suc (length desc)] \<and>
   map TimeScale (initTracks desc) = map (\<lambda>m. formatTimeScale (mediaFormat m)) desc \<and>
   formatTimeScale H264 = 90000 \<and> formatTimeScale H265 = 90000 \<and>
   formatTimeScale (MPEG4Audio sampleRate channelCount) = sampleRate \<and>
   formatTimeScale (G711 muLaw sampleRate channelCount) = sampleRate \<and>
   formatTimeScale (LPCM bitDepth sampleRate channelCount) = sampleRate \<and>
   initTracks testDesc =
     [\<lparr>TrackID = 1, TimeScale = 90000\<rparr>, \<lparr>TrackID = 2, TimeScale = 90000\<rparr>,
      \<lparr>TrackID = 3, TimeScale = 44100\<rparr>, \<lparr>TrackID = 4, TimeScale = 8000\<rparr>,
      \<lparr>TrackID = 5, TimeScale = 44100\<rparr>]"
proof -
  have l: "length (initTracks desc) = length desc"
    using arg_cong [OF initTracksFrom_scales [of 1 desc], of length]
    by (simp add: initTracks_def)
  have i: "map TrackID (initTracks desc) = [1..<Suc (length desc)]"
    using initTracksFrom_ids [of 1 desc] by (simp add: initTracks_def del: upt_Suc)
  have s: "map TimeScale (initTracks desc) = map (\<lambda>m. formatTimeScale (mediaFormat m)) desc"
    using initTracksFrom_scales [of 1 desc] by (simp add: initTracks_def)
  have t: "initTracks testDesc =
     [\<lparr>TrackID = 1, TimeScale = 90000\<rparr>, \<lparr>TrackID = 2, TimeScale = 90000\<rparr>,
      \<lparr>TrackID = 3, TimeScale = 44100\<rparr>, \<lparr>TrackID = 4, TimeScale = 8000\<rparr>,
      \<lparr>TrackID = 5, TimeScale = 44100\<rparr>]"
    by (simp add: initTracks_def testDesc_def)
  have f: "formatTimeScale H264 = 90000 \<and> formatTimeScale H265 = 90000 \<and>
   formatTimeScale (MPEG4Audio sampleRate channelCount) = sampleRate \<and>
   formatTimeScale (G711 muLaw sampleRate channelCount) = sampleRate \<and>
   formatTimeScale (LPCM bitDepth sampleRate channelCount) = sampleRate"
    by simp
  from l i s t f show ?thesis by blast
qed

end
